theory Spec2Isabelle
  imports Complex_Main
begin

text \<open>
  The per-user sending subsystem of the bot: the store operations it uses
  (\<open>database.py\<close>) and the \<open>SenderManager\<close> (\<open>sender.py\<close>) with its send loop, its
  task registry, the restore on boot and the subscription checker.

  The code is asynchronous. The model is sequential: an operation is a function from
  the state of the manager to its new state, and everything the outside world decides
  while the operation runs (the clock, whether an awaited call raises or is cancelled,
  what \<open>is_connected()\<close> answers, the random draws) is an argument of that function.
  The send loop may run forever; it is run over the list of the environments of its
  cycles and reports whether it has left or is still running. Where two operations can
  overlap at an \<open>await\<close> and a claim depends on it, the halves before and after the
  \<open>await\<close> are separate functions.
\<close>

section \<open>The persistent store (database.py)\<close>

text \<open>
  Each SQLite table is the list of its rows, in rowid order. Integer columns are
  Python's unbounded integers; the code only ever writes integers into them, so no
  column is modelled as nullable. \<open>time.time()\<close> is read from the environment: every
  store operation that reads the clock takes the reading \<open>now\<close> as an argument.
\<close>

record user_row =
  user_id :: int
  full_name :: string
  is_logged_in :: int
  is_active :: int
  is_banned :: int
  subscription_until :: int
  created_at :: int
  updated_at :: int

record profile_row =
  p_user_id :: int
  phone :: string
  session :: string
  p_updated_at :: int

record message_row =
  m_user_id :: int
  text_body :: string
  m_updated_at :: int

record group_row =
  g_user_id :: int
  group_id :: int
  group_title :: string
  added_at :: int

record database =
  users :: "user_row list"
  profiles :: "profile_row list"
  messages :: "message_row list"
  user_groups :: "group_row list"

text \<open>\<open>SELECT * FROM users WHERE user_id = ?\<close> with \<open>fetchone\<close>: the first matching row.\<close>

definition get_user :: "int \<Rightarrow> database \<Rightarrow> user_row option" where
  "get_user uid d = find (\<lambda>r. user_id r = uid) (users d)"

text \<open>\<open>UPDATE users SET is_active = ?, updated_at = ? WHERE user_id = ?\<close>.\<close>

definition update_user_active_status :: "int \<Rightarrow> int \<Rightarrow> int \<Rightarrow> database \<Rightarrow> database" where
  "update_user_active_status uid v now d =
     d\<lparr>users := map (\<lambda>r. if user_id r = uid then r\<lparr>is_active := v, updated_at := now\<rparr> else r)
                     (users d)\<rparr>"

definition get_profile :: "int \<Rightarrow> database \<Rightarrow> profile_row option" where
  "get_profile uid d = find (\<lambda>p. p_user_id p = uid) (profiles d)"

definition get_message :: "int \<Rightarrow> database \<Rightarrow> message_row option" where
  "get_message uid d = find (\<lambda>m. m_user_id m = uid) (messages d)"

text \<open>\<open>SELECT * FROM users WHERE is_active = 1 AND is_banned = 0\<close>.\<close>

definition get_active_users :: "database \<Rightarrow> user_row list" where
  "get_active_users d = filter (\<lambda>r. is_active r = 1 \<and> is_banned r = 0) (users d)"

text \<open>\<open>SELECT group_id FROM user_groups WHERE user_id = ?\<close>.\<close>

definition get_user_groups :: "int \<Rightarrow> database \<Rightarrow> int list" where
  "get_user_groups uid d = map group_id (filter (\<lambda>g. g_user_id g = uid) (user_groups d))"

text \<open>\<open>bool(row and row[0] > now)\<close> on the row's \<open>subscription_until\<close>.\<close>

definition check_subscription :: "int \<Rightarrow> int \<Rightarrow> database \<Rightarrow> bool" where
  "check_subscription uid now d =
     (case get_user uid d of None \<Rightarrow> False | Some r \<Rightarrow> subscription_until r > now)"

text \<open>
  \<open>SELECT user_id FROM users WHERE subscription_until > 0 AND subscription_until < ?
  AND is_active = 1\<close>, with the clock reading as the parameter.
\<close>

definition get_expired_subscriptions :: "int \<Rightarrow> database \<Rightarrow> int list" where
  "get_expired_subscriptions now d =
     map user_id (filter (\<lambda>r. subscription_until r > 0 \<and> subscription_until r < now
                               \<and> is_active r = 1) (users d))"

text \<open>\<open>user_id INTEGER PRIMARY KEY\<close>: no two rows of the users table share an id.\<close>

definition primary_key :: "database \<Rightarrow> bool" where
  "primary_key d \<longleftrightarrow> distinct (map user_id (users d))"

section \<open>Configuration, exceptions and the environment (sender.py)\<close>

text \<open>
  The constants imported from \<open>config\<close> are parameters of the model; \<open>config.py\<close> is
  not part of the sources at hand. They are taken to be integers.
\<close>

record config =
  MAX_RETRY_ATTEMPTS :: int
  BASE_RETRY_DELAY :: int
  MAX_RETRY_DELAY :: int
  DEFAULT_RANDOM_INTERVAL_MIN :: int
  DEFAULT_RANDOM_INTERVAL_MAX :: int

text \<open>
  What an awaited call can raise. \<open>FloodWaitError\<close> carries its \<open>seconds\<close>;
  \<open>OtherError\<close> stands for every other subclass of \<open>Exception\<close>.
  \<open>asyncio.CancelledError\<close> derives from \<open>BaseException\<close>: \<open>except Exception\<close>
  does not catch it, a bare \<open>except:\<close> does.
\<close>

datatype exn = CancelledError | FloodWaitError int | OtherError

text \<open>
  The calls the manager makes on the outside world, in the order it makes them: the
  transport (connect, send, disconnect), \<open>asyncio.sleep\<close> with its delay in seconds, and
  \<open>task.cancel()\<close>. A call is recorded when it is made, whatever its outcome.
\<close>

datatype event =
    Connect nat
  | SendMessage nat int string
  | Disconnect nat
  | Sleep real
  | Cancel nat

text \<open>
  An \<open>asyncio\<close> task running \<open>_sending_loop(user_id)\<close>: \<open>Pending\<close> is created and
  not yet run, \<open>Suspended c\<close> is inside the \<open>try\<close> block at an \<open>await\<close> with the local
  variable \<open>client\<close> equal to \<open>c\<close>, \<open>Cleaning\<close> is at the \<open>await\<close> of the
  \<open>finally\<close> block, \<open>Done\<close> is finished.
\<close>

datatype task_state = Pending | Suspended "nat option" | Cleaning | Done

record task =
  task_user :: int
  task_state :: task_state

text \<open>
  The \<open>SenderManager\<close> object with its store, and the objects its dictionaries refer
  to: tasks and clients are handles (numbers) into \<open>tasks\<close> and into the transport,
  allocated from \<open>next_task\<close> and \<open>next_client\<close>.
\<close>

record world =
  db :: database
  active_tasks :: "int \<rightharpoonup> nat"
  clients :: "int \<rightharpoonup> nat"
  subscription_checker_task :: "nat option"
  tasks :: "nat \<rightharpoonup> task"
  next_task :: nat
  next_client :: nat
  trace :: "event list"

definition emit :: "event \<Rightarrow> world \<Rightarrow> world" where
  "emit ev w = w\<lparr>trace := trace w @ [ev]\<rparr>"

definition set_active :: "int \<Rightarrow> int \<Rightarrow> int \<Rightarrow> world \<Rightarrow> world" where
  "set_active uid v now w = w\<lparr>db := update_user_active_status uid v now (db w)\<rparr>"

text \<open>
  What the environment answers during one cycle of the loop, one field for each place
  the cycle asks: the clock, the exception (if any) each awaited store or transport call
  raises, the readings of \<open>is_connected()\<close>, the random draws, and whether a sleep is
  interrupted by a cancellation. A field is read only if the cycle reaches its place.
\<close>

record dest_env =
  at_send_message :: "exn option"
  pause :: real
  pause_cancelled :: bool
  flood_extra :: int
  flood_sleep_cancelled :: bool

record cycle_env =
  clock :: int
  at_get_user :: "exn option"
  at_check_subscription :: "exn option"
  at_mark_expired :: "exn option"
  at_get_profile :: "exn option"
  at_get_message :: "exn option"
  at_get_user_groups :: "exn option"
  client_connected :: bool
  pooled_connected :: bool
  at_connect :: "exn option"
  dest :: "int \<Rightarrow> dest_env"
  interval :: int
  interval_cancelled :: bool
  cycle_flood_extra :: int
  cycle_flood_sleep_cancelled :: bool
  at_mark_exhausted :: "exn option"
  jitter :: real
  backoff_cancelled :: bool

text \<open>
  The ranges Python's \<open>random\<close> module draws from: \<open>randint(a, b)\<close> returns an integer
  \<open>N\<close> with \<open>a \<le> N \<le> b\<close>, \<open>uniform(a, b)\<close> a number between \<open>a\<close> and \<open>b\<close>.
\<close>

definition randint :: "int \<Rightarrow> int \<Rightarrow> int \<Rightarrow> bool" where
  "randint a b n \<longleftrightarrow> a \<le> n \<and> n \<le> b"

definition uniform :: "real \<Rightarrow> real \<Rightarrow> real \<Rightarrow> bool" where
  "uniform a b x \<longleftrightarrow> a \<le> x \<and> x \<le> b"

section \<open>The send loop\<close>

text \<open>The local variables of \<open>_sending_loop\<close>.\<close>

record locals =
  retry_count :: nat
  client :: "nat option"

text \<open>How control leaves the body of \<open>while True\<close>: \<open>break\<close>, or an exception.\<close>

datatype signal = Break | Raise exn

datatype step = Next | Exit signal

text \<open>An awaited call that raises leaves the cycle with that exception.\<close>

definition awaiting ::
  "exn option \<Rightarrow> world \<Rightarrow> (signal + 'a) \<times> world \<Rightarrow> (signal + 'a) \<times> world" where
  "awaiting outcome w k = (case outcome of Some x \<Rightarrow> (Inl (Raise x), w) | None \<Rightarrow> k)"

text \<open>
  Lines 167 to 184: the user, the subscription, then profile, message and groups. A
  row is a non-empty dictionary, so \<open>not profile\<close> holds exactly when there is no row;
  \<open>not user_groups\<close> holds exactly when the list is empty.
\<close>

definition checking_phase ::
  "int \<Rightarrow> cycle_env \<Rightarrow> world \<Rightarrow> (signal + profile_row \<times> message_row \<times> int list) \<times> world" where
  "checking_phase uid e w =
     awaiting (at_get_user e) w
       (case get_user uid (db w) of
          None \<Rightarrow> (Inl Break, w)
        | Some user \<Rightarrow>
            if is_active user = 0 \<or> is_banned user = 1 then (Inl Break, w)
            else awaiting (at_check_subscription e) w
              (if \<not> check_subscription uid (clock e) (db w) then
                 awaiting (at_mark_expired e) w
                   (Inl Break, set_active uid 0 (clock e) w)
               else awaiting (at_get_profile e) w
                 (awaiting (at_get_message e) w
                   (awaiting (at_get_user_groups e) w
                     (case (get_profile uid (db w), get_message uid (db w)) of
                        (Some profile, Some message) \<Rightarrow>
                          (case get_user_groups uid (db w) of
                             [] \<Rightarrow> (Inl Break, w)
                           | g # gs \<Rightarrow> (Inr (profile, message, g # gs), w))
                      | _ \<Rightarrow> (Inl Break, w))))))"

text \<open>
  \<open>create_client\<close>: a pooled client that reports connected is reused; one that does
  not is dropped from the pool; then a new client is made, connected and pooled. When
  \<open>connect\<close> raises, the new client is not pooled.
\<close>

definition create_client :: "int \<Rightarrow> cycle_env \<Rightarrow> world \<Rightarrow> (exn + nat) \<times> world" where
  "create_client uid e w =
     (case (case clients w uid of
              Some c \<Rightarrow> if pooled_connected e then Inl c
                        else Inr (w\<lparr>clients := (clients w)(uid := None)\<rparr>)
            | None \<Rightarrow> Inr w) of
        Inl c \<Rightarrow> (Inr c, w)
      | Inr w1 \<Rightarrow>
          (let c = next_client w1; w2 = emit (Connect c) (w1\<lparr>next_client := Suc c\<rparr>)
           in case at_connect e of
                Some x \<Rightarrow> (Inl x, w2)
              | None \<Rightarrow> (Inr c, w2\<lparr>clients := (clients w2)(uid \<mapsto> c)\<rparr>)))"

text \<open>
  Lines 193 to 204, one destination: the send, then the pause; a \<open>FloodWaitError\<close>
  from the send sleeps \<open>e.seconds + random.randint(5, 15)\<close>, any other \<open>Exception\<close> is
  dropped. What is returned is the exception that leaves the \<open>for\<close> loop, if any.
\<close>

definition send_one :: "nat \<Rightarrow> string \<Rightarrow> dest_env \<Rightarrow> int \<Rightarrow> world \<Rightarrow> exn option \<times> world" where
  "send_one c txt de g w =
     (let w1 = emit (SendMessage c g txt) w
      in case at_send_message de of
           None \<Rightarrow>
             (if pause_cancelled de then Some CancelledError else None,
              emit (Sleep (pause de)) w1)
         | Some (FloodWaitError n) \<Rightarrow>
             (if flood_sleep_cancelled de then Some CancelledError else None,
              emit (Sleep (of_int (n + flood_extra de))) w1)
         | Some OtherError \<Rightarrow> (None, w1)
         | Some CancelledError \<Rightarrow> (Some CancelledError, w1))"

fun send_to_groups ::
  "nat \<Rightarrow> string \<Rightarrow> cycle_env \<Rightarrow> int list \<Rightarrow> world \<Rightarrow> exn option \<times> world" where
  "send_to_groups c txt e [] w = (None, w)"
| "send_to_groups c txt e (g # gs) w =
     (case send_one c txt (dest e g) g w of
        (Some x, w1) \<Rightarrow> (Some x, w1)
      | (None, w1) \<Rightarrow> send_to_groups c txt e gs w1)"

text \<open>
  Lines 187 to 214, the body of the inner \<open>try\<close>: the client, the destinations, the
  reset of \<open>retry_count\<close>, the interval sleep. What is returned is the exception that
  leaves the \<open>try\<close> body, if any.
\<close>

definition sending ::
  "int \<Rightarrow> cycle_env \<Rightarrow> profile_row \<times> message_row \<times> int list \<Rightarrow> world \<Rightarrow> locals
     \<Rightarrow> exn option \<times> world \<times> locals" where
  "sending uid e pmg w l =
     (case pmg of (profile, message, groups) \<Rightarrow>
      (case (case client l of
               Some c \<Rightarrow> if client_connected e then (Inr c, w) else create_client uid e w
             | None \<Rightarrow> create_client uid e w) of
         (Inl x, w1) \<Rightarrow> (Some x, w1, l)
       | (Inr c, w1) \<Rightarrow>
           (let l1 = l\<lparr>client := Some c\<rparr>
            in case send_to_groups c (text_body message) e groups w1 of
                 (Some x, w2) \<Rightarrow> (Some x, w2, l1)
               | (None, w2) \<Rightarrow>
                   (if interval_cancelled e then Some CancelledError else None,
                    emit (Sleep (of_int (interval e))) w2,
                    l1\<lparr>retry_count := 0\<rparr>))))"

text \<open>\<open>min(BASE_RETRY_DELAY * (2 ** retry_count), MAX_RETRY_DELAY)\<close>.\<close>

definition backoff :: "config \<Rightarrow> nat \<Rightarrow> int" where
  "backoff cfg n = min (BASE_RETRY_DELAY cfg * 2 ^ n) (MAX_RETRY_DELAY cfg)"

text \<open>
  Lines 216 to 231, the handlers of the inner \<open>try\<close>. A \<open>CancelledError\<close> passes
  through both.
\<close>

definition handle_cycle ::
  "config \<Rightarrow> int \<Rightarrow> cycle_env \<Rightarrow> exn option \<times> world \<times> locals \<Rightarrow> step \<times> world \<times> locals" where
  "handle_cycle cfg uid e r =
     (case r of (raised, w, l) \<Rightarrow>
      (case raised of
         None \<Rightarrow> (Next, w, l)
       | Some CancelledError \<Rightarrow> (Exit (Raise CancelledError), w, l)
       | Some (FloodWaitError n) \<Rightarrow>
           (if cycle_flood_sleep_cancelled e then Exit (Raise CancelledError) else Next,
            emit (Sleep (of_int (n + cycle_flood_extra e))) w, l)
       | Some OtherError \<Rightarrow>
           (let l1 = l\<lparr>retry_count := retry_count l + 1\<rparr>
            in if int (retry_count l1) \<ge> MAX_RETRY_ATTEMPTS cfg then
                 (case at_mark_exhausted e of
                    Some x \<Rightarrow> (Exit (Raise x), w, l1)
                  | None \<Rightarrow> (Exit Break, set_active uid 0 (clock e) w, l1))
               else
                 (if backoff_cancelled e then Exit (Raise CancelledError) else Next,
                  emit (Sleep (of_int (backoff cfg (retry_count l1)) + jitter e)) w, l1))))"

text \<open>One pass through the body of \<open>while True\<close>.\<close>

definition sending_cycle ::
  "config \<Rightarrow> int \<Rightarrow> cycle_env \<Rightarrow> world \<Rightarrow> locals \<Rightarrow> step \<times> world \<times> locals" where
  "sending_cycle cfg uid e w l =
     (case checking_phase uid e w of
        (Inl s, w1) \<Rightarrow> (Exit s, w1, l)
      | (Inr pmg, w1) \<Rightarrow> handle_cycle cfg uid e (sending uid e pmg w1 l))"

text \<open>
  The \<open>while True\<close> loop over the environments of its successive cycles. When the
  environments are used up before the loop has left, the task is still running:
  \<open>Running\<close> holds its state at that point.
\<close>

datatype run = Running world locals | Exited signal world locals

fun run_cycles :: "config \<Rightarrow> int \<Rightarrow> cycle_env list \<Rightarrow> world \<Rightarrow> locals \<Rightarrow> run" where
  "run_cycles cfg uid [] w l = Running w l"
| "run_cycles cfg uid (e # es) w l =
     (case sending_cycle cfg uid e w l of
        (Next, w1, l1) \<Rightarrow> run_cycles cfg uid es w1 l1
      | (Exit s, w1, l1) \<Rightarrow> Exited s w1 l1)"

text \<open>
  Lines 238 to 256, the \<open>finally\<close> block: \<open>conn\<close> is the reading of
  \<open>client.is_connected()\<close>; whatever \<open>disconnect\<close> raises is dropped by the bare
  \<open>except\<close>; then the two dictionary entries are deleted.
\<close>

definition cleanup_entries :: "int \<Rightarrow> world \<Rightarrow> world" where
  "cleanup_entries uid w =
     w\<lparr>clients := (clients w)(uid := None), active_tasks := (active_tasks w)(uid := None)\<rparr>"

definition loop_finally :: "int \<Rightarrow> bool \<Rightarrow> nat option \<Rightarrow> world \<Rightarrow> world" where
  "loop_finally uid conn cl w =
     cleanup_entries uid
       (case cl of
          Some c \<Rightarrow> if conn then emit (Disconnect c) w else w
        | None \<Rightarrow> w)"

text \<open>
  What the environment answers after the loop is left: the clock and the outcome of
  the store call of line 237, and the reading of \<open>is_connected()\<close> at line 240.
\<close>

record exit_env =
  exit_clock :: int
  at_mark_failed :: "exn option"
  final_connected :: bool

text \<open>
  Lines 233 to 256, the handlers of the outer \<open>try\<close> and its \<open>finally\<close>. The result
  holds the exception the coroutine ends with, if any.
\<close>

definition loop_exit ::
  "int \<Rightarrow> exit_env \<Rightarrow> signal \<Rightarrow> world \<Rightarrow> locals \<Rightarrow> exn option \<times> world" where
  "loop_exit uid fe s w l =
     (case s of
        Break \<Rightarrow> (None, loop_finally uid (final_connected fe) (client l) w)
      | Raise CancelledError \<Rightarrow> (None, loop_finally uid (final_connected fe) (client l) w)
      | Raise x \<Rightarrow>
          (case at_mark_failed fe of
             Some y \<Rightarrow> (Some y, loop_finally uid (final_connected fe) (client l) w)
           | None \<Rightarrow>
               (None, loop_finally uid (final_connected fe) (client l)
                        (set_active uid 0 (exit_clock fe) w))))"

text \<open>
  \<open>_sending_loop(user_id)\<close> as a whole: \<open>None\<close> when the loop has not left after the
  given cycles.
\<close>

definition sending_loop ::
  "config \<Rightarrow> int \<Rightarrow> cycle_env list \<Rightarrow> exit_env \<Rightarrow> world \<Rightarrow> (exn option \<times> world) option" where
  "sending_loop cfg uid es fe w =
     (case run_cycles cfg uid es w \<lparr>retry_count = 0, client = None\<rparr> of
        Running w1 l1 \<Rightarrow> None
      | Exited s w1 l1 \<Rightarrow> Some (loop_exit uid fe s w1 l1))"

section \<open>The task registry\<close>

text \<open>
  \<open>task.done()\<close>. A handle in \<open>active_tasks\<close> always names a task object; for a
  number that names none the model answers that it is done.
\<close>

definition task_done :: "world \<Rightarrow> nat \<Rightarrow> bool" where
  "task_done w t = (case tasks w t of Some tk \<Rightarrow> task_state tk = Done | None \<Rightarrow> True)"

text \<open>
  \<open>start_sending\<close> has one \<open>await\<close>, the store call of line 121, between its guard
  (line 117) and the creation of the task (lines 124 and 125). The model keeps the two
  halves apart: \<open>start_sending_enter\<close> runs up to and including the store call and says
  whether the call goes on; \<open>start_sending_resume\<close> is what runs after the \<open>await\<close>.
  \<open>start_sending\<close> is one call running alone.
\<close>

definition start_sending_enter :: "int \<Rightarrow> int \<Rightarrow> world \<Rightarrow> bool \<times> world" where
  "start_sending_enter now uid w =
     (case active_tasks w uid of
        Some t \<Rightarrow> if \<not> task_done w t then (False, w) else (True, set_active uid 1 now w)
      | None \<Rightarrow> (True, set_active uid 1 now w))"

definition start_sending_resume :: "int \<Rightarrow> world \<Rightarrow> world" where
  "start_sending_resume uid w =
     (let t = next_task w
      in w\<lparr>tasks := (tasks w)(t \<mapsto> \<lparr>task_user = uid, task_state = Pending\<rparr>),
           next_task := Suc t,
           active_tasks := (active_tasks w)(uid \<mapsto> t)\<rparr>)"

definition start_sending :: "int \<Rightarrow> int \<Rightarrow> world \<Rightarrow> world" where
  "start_sending now uid w =
     (case start_sending_enter now uid w of
        (False, w1) \<Rightarrow> w1
      | (True, w1) \<Rightarrow> start_sending_resume uid w1)"

text \<open>
  \<open>task.cancel()\<close> followed by \<open>await task\<close> on a task that is not done. A task
  that never ran ends without entering its \<open>try\<close> block; one suspended inside it runs
  \<open>except asyncio.CancelledError: pass\<close> and the \<open>finally\<close> block; one suspended in
  the \<open>finally\<close> block has the cancellation dropped by the bare \<open>except\<close> and goes on
  to delete the two entries. \<open>conn\<close> is the reading of \<open>is_connected()\<close> at line 240.
\<close>

definition await_cancelled :: "bool \<Rightarrow> nat \<Rightarrow> world \<Rightarrow> world" where
  "await_cancelled conn t w =
     (case tasks w t of
        None \<Rightarrow> w
      | Some tk \<Rightarrow>
          (let w1 = emit (Cancel t) w;
               w2 = (case task_state tk of
                       Pending \<Rightarrow> w1
                     | Suspended cl \<Rightarrow> loop_finally (task_user tk) conn cl w1
                     | Cleaning \<Rightarrow> cleanup_entries (task_user tk) w1
                     | Done \<Rightarrow> w1)
           in w2\<lparr>tasks := (tasks w2)(t \<mapsto> tk\<lparr>task_state := Done\<rparr>)\<rparr>))"

text \<open>
  \<open>stop_sending\<close>, lines 127 to 157: the store call, the task, the client. Whatever
  \<open>disconnect\<close> raises is dropped by the bare \<open>except\<close>.
\<close>

definition stop_sending :: "int \<Rightarrow> bool \<Rightarrow> int \<Rightarrow> world \<Rightarrow> world" where
  "stop_sending now conn uid w =
     (let w1 = set_active uid 0 now w;
          w2 = (case active_tasks w1 uid of
                  None \<Rightarrow> w1
                | Some t \<Rightarrow>
                    (let w' = (if \<not> task_done w1 t then await_cancelled conn t w1 else w1)
                     in w'\<lparr>active_tasks := (active_tasks w')(uid := None)\<rparr>))
      in case clients w2 uid of
           None \<Rightarrow> w2
         | Some c \<Rightarrow> (emit (Disconnect c) w2)\<lparr>clients := (clients w2)(uid := None)\<rparr>)"

text \<open>The tasks of a user that are not done, among all the tasks ever created.\<close>

definition live_tasks :: "int \<Rightarrow> world \<Rightarrow> nat list" where
  "live_tasks uid w =
     filter (\<lambda>t. case tasks w t of
                    Some tk \<Rightarrow> task_user tk = uid \<and> task_state tk \<noteq> Done
                  | None \<Rightarrow> False) [0..<next_task w]"

text \<open>
  The event loop runs a pending task to its end: the coroutine runs as \<open>sending_loop\<close>
  says, with the environments of its cycles, and the task is done when it returns.
\<close>

definition run_task ::
  "config \<Rightarrow> nat \<Rightarrow> cycle_env list \<Rightarrow> exit_env \<Rightarrow> world \<Rightarrow> world option" where
  "run_task cfg t es fe w =
     (case tasks w t of
        None \<Rightarrow> None
      | Some tk \<Rightarrow>
          (if task_state tk = Pending then
             (case sending_loop cfg (task_user tk) es fe w of
                None \<Rightarrow> None
              | Some (r, w') \<Rightarrow> Some (w'\<lparr>tasks := (tasks w')(t \<mapsto> tk\<lparr>task_state := Done\<rparr>)\<rparr>))
           else None))"

text \<open>
  Two calls of \<open>start_sending\<close> for one user that overlap: the second is entered while
  the first is suspended at its \<open>await\<close> (line 121), so both guards are evaluated before
  either task is created; then the first call is resumed, then the second. When the
  first call returns at its guard, the second runs alone.
\<close>

definition overlapping_starts :: "int \<Rightarrow> int \<Rightarrow> int \<Rightarrow> world \<Rightarrow> world" where
  "overlapping_starts now1 now2 uid w =
     (case start_sending_enter now1 uid w of
        (False, w1) \<Rightarrow> start_sending now2 uid w1
      | (True, w1) \<Rightarrow>
          (case start_sending_enter now2 uid w1 of
             (False, w2) \<Rightarrow> start_sending_resume uid w2
           | (True, w2) \<Rightarrow> start_sending_resume uid (start_sending_resume uid w2)))"

text \<open>Handles are allocated in order: no task object has a handle from \<open>next_task\<close> on.\<close>

definition heap_ok :: "world \<Rightarrow> bool" where
  "heap_ok w \<longleftrightarrow> (\<forall>t. next_task w \<le> t \<longrightarrow> tasks w t = None)"

text \<open>Every task that is not done is the registered task of its user.\<close>

definition registry_ok :: "world \<Rightarrow> bool" where
  "registry_ok w \<longleftrightarrow>
     heap_ok w
   \<and> (\<forall>t tk. tasks w t = Some tk \<longrightarrow> task_state tk \<noteq> Done \<longrightarrow>
               active_tasks w (task_user tk) = Some t)"

text \<open>The registry and the task objects, without the rest of the manager.\<close>

definition registry :: "world \<Rightarrow> (int \<rightharpoonup> nat) \<times> (nat \<rightharpoonup> task) \<times> nat" where
  "registry w = (active_tasks w, tasks w, next_task w)"

section \<open>Restore on boot and the subscription checker\<close>

text \<open>The manager as \<open>__init__\<close> leaves it, over a given store.\<close>

definition boot :: "database \<Rightarrow> world" where
  "boot d = \<lparr>db = d, active_tasks = Map.empty, clients = Map.empty,
             subscription_checker_task = None, tasks = Map.empty,
             next_task = 0, next_client = 0, trace = []\<rparr>"

text \<open>Lines 265 to 280, the body of the \<open>for\<close> loop of \<open>restore_active_tasks\<close>.\<close>

definition restore_user :: "int \<Rightarrow> int \<Rightarrow> world \<Rightarrow> world" where
  "restore_user now uid w =
     (if \<not> check_subscription uid now (db w) then set_active uid 0 now w
      else (case (get_profile uid (db w), get_message uid (db w), get_user_groups uid (db w)) of
              (Some profile, Some message, g # gs) \<Rightarrow> start_sending now uid w
            | _ \<Rightarrow> set_active uid 0 now w))"

text \<open>
  \<open>restore_active_tasks\<close>: the active users are read once, then handled in turn;
  \<open>now uid\<close> is the clock reading while user \<open>uid\<close> is handled. At the end the checker
  task is created unless there is one.
\<close>

definition restore_active_tasks :: "(int \<Rightarrow> int) \<Rightarrow> world \<Rightarrow> world" where
  "restore_active_tasks now w =
     (let active_users = get_active_users (db w);
          w1 = fold (\<lambda>user. restore_user (now (user_id user)) (user_id user)) active_users w
      in case subscription_checker_task w1 of
           None \<Rightarrow> w1\<lparr>subscription_checker_task := Some (next_task w1),
                      next_task := Suc (next_task w1)\<rparr>
         | Some t \<Rightarrow> w1)"

text \<open>
  One round of \<open>_subscription_checker_loop\<close> after its sleep: the expired users are
  read at clock reading \<open>now\<close>, then \<open>stop_sending\<close> is called for each of them, at
  clock reading \<open>stop_now uid\<close>.
\<close>

definition checker_round :: "int \<Rightarrow> (int \<Rightarrow> int) \<Rightarrow> (int \<Rightarrow> bool) \<Rightarrow> world \<Rightarrow> world" where
  "checker_round now stop_now conn w =
     fold (\<lambda>uid. stop_sending (stop_now uid) (conn uid) uid)
          (get_expired_subscriptions now (db w)) w"

text \<open>
  The states the manager is in when its operations run one at a time, each to its end
  before the next begins.
\<close>

inductive sequential :: "world \<Rightarrow> bool" where
  at_boot: "sequential (boot d)"
| after_restore: "sequential w \<Longrightarrow> sequential (restore_active_tasks now w)"
| after_start: "sequential w \<Longrightarrow> sequential (start_sending now uid w)"
| after_stop: "sequential w \<Longrightarrow> sequential (stop_sending now conn uid w)"
| after_task: "sequential w \<Longrightarrow> run_task cfg t es fe w = Some w' \<Longrightarrow> sequential w'"

section \<open>Reading a run, and concrete inputs\<close>

text \<open>The delays of the \<open>asyncio.sleep\<close> calls of a trace, in order.\<close>

fun sleeps :: "event list \<Rightarrow> real list" where
  "sleeps [] = []"
| "sleeps (Sleep d # evs) = d # sleeps evs"
| "sleeps (ev # evs) = sleeps evs"

text \<open>
  The user passes every check of lines 167 to 184 at clock reading \<open>now\<close>: the row
  exists, is active and not banned, the subscription has not run out, and profile,
  message and groups are there.
\<close>

definition ready :: "int \<Rightarrow> int \<Rightarrow> database \<Rightarrow> bool" where
  "ready uid now d =
     (case get_user uid d of
        None \<Rightarrow> False
      | Some r \<Rightarrow> is_active r \<noteq> 0 \<and> is_banned r \<noteq> 1 \<and> now < subscription_until r
                  \<and> get_profile uid d \<noteq> None \<and> get_message uid d \<noteq> None
                  \<and> get_user_groups uid d \<noteq> [])"

text \<open>
  A cycle with a cycle-level fault: the store calls complete, the loop has to connect
  (neither its own client nor a pooled one reports connected), and \<open>connect\<close> raises an
  \<open>Exception\<close> that is not a \<open>FloodWaitError\<close>; the store call and the sleep of the
  handler complete.
\<close>

definition fault_env :: "cycle_env \<Rightarrow> bool" where
  "fault_env e \<longleftrightarrow>
     at_get_user e = None \<and> at_check_subscription e = None \<and> at_get_profile e = None
   \<and> at_get_message e = None \<and> at_get_user_groups e = None
   \<and> \<not> client_connected e \<and> \<not> pooled_connected e \<and> at_connect e = Some OtherError
   \<and> at_mark_exhausted e = None \<and> \<not> backoff_cancelled e"

text \<open>
  The delays of the backoff sleeps (lines 229 to 231) of successive fault cycles that
  start with \<open>retry_count = k\<close>: each cycle adds one to the count, then sleeps.
\<close>

fun backoff_delays :: "config \<Rightarrow> nat \<Rightarrow> cycle_env list \<Rightarrow> real list" where
  "backoff_delays cfg k [] = []"
| "backoff_delays cfg k (e # es) =
     (of_int (backoff cfg (Suc k)) + jitter e) # backoff_delays cfg (Suc k) es"

text \<open>
  A store with one user, number 1, who is active, not banned, subscribed until second
  1000, logged in, with a message and two groups; and environments in which every call
  completes: the inputs on which the theorems below are instantiated.
\<close>

definition user1 :: user_row where
  "user1 = \<lparr>user_id = 1, full_name = ''Ali'', is_logged_in = 1, is_active = 1, is_banned = 0,
            subscription_until = 1000, created_at = 0, updated_at = 0\<rparr>"

definition ready_db :: database where
  "ready_db =
     \<lparr>users = [user1],
      profiles = [\<lparr>p_user_id = 1, phone = ''+998'', session = ''s1'', p_updated_at = 0\<rparr>],
      messages = [\<lparr>m_user_id = 1, text_body = ''hello'', m_updated_at = 0\<rparr>],
      user_groups = [\<lparr>g_user_id = 1, group_id = 10, group_title = ''a'', added_at = 0\<rparr>,
                     \<lparr>g_user_id = 1, group_id = 20, group_title = ''b'', added_at = 0\<rparr>]\<rparr>"

definition calm_dest :: dest_env where
  "calm_dest = \<lparr>at_send_message = None, pause = 3, pause_cancelled = False,
                flood_extra = 15, flood_sleep_cancelled = False\<rparr>"

definition calm :: cycle_env where
  "calm = \<lparr>clock = 100, at_get_user = None, at_check_subscription = None,
           at_mark_expired = None, at_get_profile = None, at_get_message = None,
           at_get_user_groups = None, client_connected = True, pooled_connected = True,
           at_connect = None, dest = (\<lambda>g. calm_dest), interval = 300,
           interval_cancelled = False, cycle_flood_extra = 15,
           cycle_flood_sleep_cancelled = False, at_mark_exhausted = None, jitter = 0,
           backoff_cancelled = False\<rparr>"

definition calm_exit :: exit_env where
  "calm_exit = \<lparr>exit_clock = 200, at_mark_failed = None, final_connected = True\<rparr>"

definition broken :: cycle_env where
  "broken = calm\<lparr>client_connected := False, pooled_connected := False,
                  at_connect := Some OtherError\<rparr>"

definition cfg1 :: config where
  "cfg1 = \<lparr>MAX_RETRY_ATTEMPTS = 3, BASE_RETRY_DELAY = 1, MAX_RETRY_DELAY = 60,
           DEFAULT_RANDOM_INTERVAL_MIN = 300, DEFAULT_RANDOM_INTERVAL_MAX = 360\<rparr>"

text \<open>
  A second store: user 1 is active and never subscribed (\<open>subscription_until = 0\<close>),
  user 2 is active with a subscription that ran out at second 50.
\<close>

definition never_subscribed :: user_row where
  "never_subscribed = user1\<lparr>subscription_until := 0\<rparr>"

definition lapsed :: user_row where
  "lapsed = user1\<lparr>user_id := 2, subscription_until := 50\<rparr>"

definition mixed_db :: database where
  "mixed_db = ready_db\<lparr>users := [never_subscribed, lapsed]\<rparr>"

text \<open>
  The manager after \<open>create_client(1, session)\<close> on a fresh manager, as
  \<open>get_user_dialogs\<close> calls it (line 92): a client is pooled, no task is registered.
\<close>

definition pooled :: world where
  "pooled = snd (create_client 1 calm (boot ready_db))"

text \<open>A third store: user 1 is active and banned, subscribed, and has no groups.\<close>

definition banned_db :: database where
  "banned_db = ready_db\<lparr>users := [user1\<lparr>is_banned := 1\<rparr>], user_groups := []\<rparr>"

section \<open>Facts about the store\<close>

lemmas fixture_defs = cfg1_def calm_def calm_dest_def calm_exit_def boot_def ready_db_def
  user1_def

lemmas store_defs = get_user_def check_subscription_def get_profile_def get_message_def
  get_user_groups_def update_user_active_status_def set_active_def

lemmas loop_defs = sending_cycle_def checking_phase_def awaiting_def sending_def
  create_client_def send_one_def emit_def handle_cycle_def backoff_def loop_exit_def
  loop_finally_def cleanup_entries_def sending_loop_def

lemmas registry_defs = start_sending_def start_sending_enter_def start_sending_resume_def
  task_done_def stop_sending_def await_cancelled_def live_tasks_def

lemma find_map_upd:
  "find (\<lambda>r. user_id r = u)
        (map (\<lambda>r. if user_id r = uid then r\<lparr>is_active := v, updated_at := n\<rparr> else r) xs)
   = map_option (\<lambda>r. if user_id r = uid then r\<lparr>is_active := v, updated_at := n\<rparr> else r)
       (find (\<lambda>r. user_id r = u) xs)"
  by (induction xs) auto

text \<open>The update changes the two columns of the row of \<open>uid\<close> and no other row.\<close>

lemma get_user_update:
  "get_user u (update_user_active_status uid v n d) =
     (if u = uid then map_option (\<lambda>r. r\<lparr>is_active := v, updated_at := n\<rparr>) (get_user u d)
      else get_user u d)"
  by (cases "get_user u d";
      auto simp: get_user_def update_user_active_status_def find_map_upd
           dest: find_Some_iff[THEN iffD1])

lemma get_user_set_active:
  "get_user u (db (set_active uid v n w)) =
     (if u = uid then map_option (\<lambda>r. r\<lparr>is_active := v, updated_at := n\<rparr>) (get_user u (db w))
      else get_user u (db w))"
  by (simp add: set_active_def get_user_update)

lemma find_distinct_key:
  "distinct (map user_id xs) \<Longrightarrow> r \<in> set xs \<Longrightarrow>
     find (\<lambda>x. user_id x = user_id r) xs = Some r"
  by (induction xs) (auto simp: rev_image_eqI)

lemma get_user_mem:
  "primary_key d \<Longrightarrow> r \<in> set (users d) \<Longrightarrow> get_user (user_id r) d = Some r"
  unfolding primary_key_def get_user_def by (rule find_distinct_key)

text \<open>Only the store calls write the store.\<close>

lemma db_emit [simp]: "db (emit ev w) = db w"
  by (simp add: emit_def)

lemma db_cleanup_entries [simp]: "db (cleanup_entries uid w) = db w"
  by (simp add: cleanup_entries_def)

lemma db_loop_finally [simp]: "db (loop_finally uid conn cl w) = db w"
  by (simp add: loop_finally_def split: option.splits)

lemma db_await_cancelled [simp]: "db (await_cancelled conn t w) = db w"
  by (simp add: await_cancelled_def Let_def split: option.splits task_state.splits)

lemma db_stop_sending:
  "db (stop_sending now conn uid w) = update_user_active_status uid 0 now (db w)"
  by (simp add: stop_sending_def Let_def set_active_def split: option.splits)

lemma get_user_fold_stop:
  "u \<notin> set uids \<Longrightarrow>
   get_user u (db (fold (\<lambda>uid. stop_sending (sn uid) (conn uid) uid) uids w)) = get_user u (db w)"
  by (induction uids arbitrary: w) (auto simp: db_stop_sending get_user_update)

section \<open>Facts about the send loop\<close>

text \<open>The transport calls and the sleeps leave the store alone.\<close>

lemma db_create_client [simp]: "db (snd (create_client uid e w)) = db w"
  by (simp add: create_client_def Let_def split: option.splits)

lemma db_send_one [simp]: "db (snd (send_one c txt de g w)) = db w"
  by (simp add: send_one_def Let_def split: option.splits exn.splits)

lemma db_send_to_groups [simp]: "db (snd (send_to_groups c txt e gs w)) = db w"
proof (induction gs arbitrary: w)
  case Nil
  show ?case by simp
next
  case (Cons g gs)
  have "db (snd (send_one c txt (dest e g) g w)) = db w" by simp
  then show ?case
    by (cases "send_one c txt (dest e g) g w") (auto split: option.splits simp: Cons.IH)
qed

lemma db_sending [simp]: "db (fst (snd (sending uid e pmg w l))) = db w"
proof -
  obtain p m gs where pmg: "pmg = (p, m, gs)" by (cases pmg)
  have cc: "\<And>r w1. create_client uid e w = (r, w1) \<Longrightarrow> db w1 = db w"
    by (metis db_create_client snd_conv)
  have sg: "\<And>c r w1 w2. send_to_groups c (text_body m) e gs w1 = (r, w2) \<Longrightarrow> db w2 = db w1"
    by (metis db_send_to_groups snd_conv)
  show ?thesis
    unfolding sending_def pmg
    by (auto split: option.splits prod.splits sum.splits simp: Let_def dest!: cc sg)
qed

text \<open>The checks write the store in one case only: the subscription has run out.\<close>

lemma checking_phase_world:
  "checking_phase uid e w = (r, w1) \<Longrightarrow>
     w1 = w \<or> (r = Inl Break \<and> w1 = set_active uid 0 (clock e) w)"
  by (auto simp: checking_phase_def awaiting_def split: option.splits if_splits list.splits)

lemma checking_phase_expired:
  assumes "get_user uid (db w) = Some r" and "is_active r \<noteq> 0" and "is_banned r \<noteq> 1"
    and "subscription_until r \<le> clock e"
    and "at_get_user e = None" and "at_check_subscription e = None" and "at_mark_expired e = None"
  shows "checking_phase uid e w = (Inl Break, set_active uid 0 (clock e) w)"
  using assms by (simp add: checking_phase_def awaiting_def check_subscription_def)

lemma checking_phase_unready:
  assumes "get_user uid (db w) = Some r" and "is_active r \<noteq> 0" and "is_banned r \<noteq> 1"
    and "clock e < subscription_until r"
    and "at_get_user e = None" and "at_check_subscription e = None"
    and "at_get_profile e = None" and "at_get_message e = None" and "at_get_user_groups e = None"
    and "get_profile uid (db w) = None \<or> get_message uid (db w) = None
         \<or> get_user_groups uid (db w) = []"
  shows "checking_phase uid e w = (Inl Break, w)"
  using assms
  by (auto simp: checking_phase_def awaiting_def check_subscription_def
           split: option.splits list.splits)

lemma checking_phase_ready:
  assumes "get_user uid (db w) = Some r" and "is_active r \<noteq> 0" and "is_banned r \<noteq> 1"
    and "clock e < subscription_until r"
    and "at_get_user e = None" and "at_check_subscription e = None"
    and "at_get_profile e = None" and "at_get_message e = None" and "at_get_user_groups e = None"
    and "get_profile uid (db w) = Some p" and "get_message uid (db w) = Some m"
    and "get_user_groups uid (db w) = g # gs"
  shows "checking_phase uid e w = (Inr (p, m, g # gs), w)"
  using assms
  by (simp add: checking_phase_def awaiting_def check_subscription_def)

text \<open>
  The handlers write the store in one case only: the retries are used up. So a cycle
  that goes on to the next one, or that ends with an exception, has written nothing.
\<close>

lemma handle_cycle_db:
  "handle_cycle cfg uid e (x, w, l) = (st, w1, l1) \<Longrightarrow>
     db w1 = db w \<or> (st = Exit Break \<and> w1 = set_active uid 0 (clock e) w)"
  by (auto simp: handle_cycle_def Let_def split: option.splits exn.splits if_splits)

lemma sending_cycle_db:
  assumes "sending_cycle cfg uid e w l = (st, w1, l1)"
  shows "db w1 = db w
       \<or> (st = Exit Break \<and> db w1 = update_user_active_status uid 0 (clock e) (db w))"
proof (cases "checking_phase uid e w")
  case (Pair r w0)
  note ch = checking_phase_world[OF Pair]
  show ?thesis
  proof (cases r)
    case (Inl s)
    with Pair assms ch show ?thesis
      by (auto simp: sending_cycle_def set_active_def)
  next
    case (Inr pmg)
    with ch have w0: "w0 = w" by auto
    obtain x w2 l2 where s: "sending uid e pmg w l = (x, w2, l2)"
      by (cases "sending uid e pmg w l")
    then have "db w2 = db w" by (metis db_sending fst_conv snd_conv)
    moreover from assms Pair Inr w0 s have "handle_cycle cfg uid e (x, w2, l2) = (st, w1, l1)"
      by (simp add: sending_cycle_def)
    ultimately show ?thesis using handle_cycle_db[of cfg uid e x w2 l2 st w1 l1]
      by (auto simp: set_active_def)
  qed
qed

lemma run_cycles_cancel_db:
  "run_cycles cfg uid es w l = Exited (Raise CancelledError) w1 l1 \<Longrightarrow> db w1 = db w"
proof (induction es arbitrary: w l)
  case Nil
  then show ?case by simp
next
  case (Cons e es)
  obtain st w2 l2 where c: "sending_cycle cfg uid e w l = (st, w2, l2)"
    by (cases "sending_cycle cfg uid e w l")
  show ?case
  proof (cases st)
    case Next
    with c Cons.prems have "run_cycles cfg uid es w2 l2 = Exited (Raise CancelledError) w1 l1"
      by simp
    then have "db w1 = db w2" by (rule Cons.IH)
    moreover from sending_cycle_db[OF c] Next have "db w2 = db w" by simp
    ultimately show ?thesis by simp
  next
    case (Exit s)
    with c Cons.prems have "s = Raise CancelledError" "w1 = w2" by simp_all
    with sending_cycle_db[OF c] Exit show ?thesis by simp
  qed
qed

lemma run_cycles_append:
  "run_cycles cfg uid (es @ fs) w l =
     (case run_cycles cfg uid es w l of
        Running w' l' \<Rightarrow> run_cycles cfg uid fs w' l'
      | Exited s w' l' \<Rightarrow> Exited s w' l')"
  by (induction es arbitrary: w l) (auto split: prod.splits step.splits)

text \<open>The \<open>finally\<close> block.\<close>

lemma loop_finally_entries:
  "clients (loop_finally uid conn cl w) uid = None
   \<and> active_tasks (loop_finally uid conn cl w) uid = None"
  by (simp add: loop_finally_def cleanup_entries_def)

lemma loop_finally_trace:
  "trace (loop_finally uid conn cl w) =
     trace w @ (case cl of Some c \<Rightarrow> if conn then [Disconnect c] else [] | None \<Rightarrow> [])"
  by (simp add: loop_finally_def cleanup_entries_def emit_def split: option.splits)

lemma loop_exit_world:
  "\<exists>w0. snd (loop_exit uid fe s w l) = loop_finally uid (final_connected fe) (client l) w0
        \<and> trace w0 = trace w"
  by (cases s) (auto simp: loop_exit_def set_active_def split: exn.splits option.splits)

section \<open>Claims about the send loop\<close>

text \<open>
  Claim C1. In a cycle in which the user passes the checks on the row and on the
  subscription, and profile, message or groups are missing, the loop leaves at once
  (\<open>break\<close>, no retry) and the coroutine returns. What the code does to the store on
  this path is nothing: the row of the user after the \<open>finally\<close> block is the row
  before the cycle, so its active flag is still set. The claim that the flag is false
  afterwards does not hold of the code.
\<close>

theorem config_fault_leaves_flag_set:
  assumes "get_user uid (db w) = Some r" and "is_active r \<noteq> 0" and "is_banned r \<noteq> 1"
    and "clock e < subscription_until r"
    and "at_get_user e = None" and "at_check_subscription e = None"
    and "at_get_profile e = None" and "at_get_message e = None" and "at_get_user_groups e = None"
    and "get_profile uid (db w) = None \<or> get_message uid (db w) = None
         \<or> get_user_groups uid (db w) = []"
  shows "run_cycles cfg uid (e # es) w l = Exited Break w l
       \<and> fst (loop_exit uid fe Break w l) = None
       \<and> get_user uid (db (snd (loop_exit uid fe Break w l))) = Some r"
proof -
  have "checking_phase uid e w = (Inl Break, w)"
    using assms by (rule checking_phase_unready)
  then have "run_cycles cfg uid (e # es) w l = Exited Break w l"
    by (simp add: sending_cycle_def)
  moreover have "loop_exit uid fe Break w l =
      (None, loop_finally uid (final_connected fe) (client l) w)"
    by (simp add: loop_exit_def)
  ultimately show ?thesis using assms(1) by simp
qed

theorem config_fault_leaves_flag_set_witness:
  "get_user 1 (db (start_sending 50 1 (boot (ready_db\<lparr>user_groups := []\<rparr>))))
     = Some (user1\<lparr>updated_at := 50\<rparr>)
   \<and> is_active (user1\<lparr>updated_at := 50\<rparr>) = 1 \<and> is_banned (user1\<lparr>updated_at := 50\<rparr>) = 0
   \<and> clock calm < subscription_until (user1\<lparr>updated_at := 50\<rparr>)
   \<and> get_user_groups 1 (db (start_sending 50 1 (boot (ready_db\<lparr>user_groups := []\<rparr>)))) = []
   \<and> active_tasks (start_sending 50 1 (boot (ready_db\<lparr>user_groups := []\<rparr>))) 1 = Some 0
   \<and> (\<exists>w'. sending_loop cfg1 1 [calm] calm_exit
                (start_sending 50 1 (boot (ready_db\<lparr>user_groups := []\<rparr>))) = Some (None, w')
          \<and> map_option is_active (get_user 1 (db w')) = Some 1
          \<and> active_tasks w' 1 = None)"
proof -
  let ?w = "start_sending 50 1 (boot (ready_db\<lparr>user_groups := []\<rparr>))"
  let ?l = "\<lparr>retry_count = 0, client = None\<rparr>"
  let ?r = "user1\<lparr>updated_at := 50\<rparr>"
  have h: "get_user 1 (db ?w) = Some ?r" "is_active ?r \<noteq> 0" "is_banned ?r \<noteq> 1"
    "clock calm < subscription_until ?r"
    "at_get_user calm = None" "at_check_subscription calm = None" "at_get_profile calm = None"
    "at_get_message calm = None" "at_get_user_groups calm = None"
    "get_profile 1 (db ?w) = None \<or> get_message 1 (db ?w) = None \<or> get_user_groups 1 (db ?w) = []"
    by (simp_all add: fixture_defs store_defs registry_defs)
  have v: "is_active ?r = 1" "is_banned ?r = 0" "get_user_groups 1 (db ?w) = []"
    "active_tasks ?w 1 = Some 0"
    by (simp_all add: fixture_defs store_defs registry_defs)
  note t = config_fault_leaves_flag_set [OF h, of cfg1 "[]" ?l calm_exit]
  let ?w' = "snd (loop_exit 1 calm_exit Break ?w ?l)"
  from t have run: "run_cycles cfg1 1 [calm] ?w ?l = Exited Break ?w ?l" by blast
  from t have "fst (loop_exit 1 calm_exit Break ?w ?l) = None" by blast
  then have "loop_exit 1 calm_exit Break ?w ?l = (None, ?w')" by (simp add: prod_eq_iff)
  with run have loop: "sending_loop cfg1 1 [calm] calm_exit ?w = Some (None, ?w')"
    by (simp add: sending_loop_def del: run_cycles.simps)
  from t have "get_user 1 (db ?w') = Some ?r" by blast
  with v(1) have fl: "map_option is_active (get_user 1 (db ?w')) = Some 1" by simp
  have gone: "active_tasks ?w' 1 = None"
    by (simp add: loop_exit_def loop_finally_entries)
  from loop fl gone have ex: "\<exists>w'. sending_loop cfg1 1 [calm] calm_exit ?w = Some (None, w')
          \<and> map_option is_active (get_user 1 (db w')) = Some 1 \<and> active_tasks w' 1 = None"
    by blast
  show ?thesis by (intro conjI h(1) v h(4) ex)
qed

text \<open>
  Claim C2, as the code has it. After a rate-limit rejection with \<open>seconds = R\<close>, at
  one destination or at the level of the cycle, the loop sleeps \<open>R\<close> plus the draw of
  \<open>random.randint(5, 15)\<close>: at least \<open>R\<close> seconds and at most \<open>R + 15\<close>, for every
  draw. The upper bound is reached, at the draw 15, so "strictly less than \<open>R + 15\<close>"
  does not hold.
\<close>

theorem flood_wait_delay_bounds:
  assumes "at_send_message de = Some (FloodWaitError R)" and "randint 5 15 (flood_extra de)"
    and "randint 5 15 (cycle_flood_extra e)"
  shows "(\<exists>d. trace (snd (send_one c txt de g w)) = trace w @ [SendMessage c g txt, Sleep d]
            \<and> real_of_int R \<le> d \<and> d \<le> real_of_int R + 15)
       \<and> (\<exists>d st. handle_cycle cfg uid e (Some (FloodWaitError R), w, l) = (st, emit (Sleep d) w, l)
            \<and> real_of_int R \<le> d \<and> d \<le> real_of_int R + 15)"
proof -
  let ?d1 = "real_of_int (R + flood_extra de)"
  let ?d2 = "real_of_int (R + cycle_flood_extra e)"
  have "trace (snd (send_one c txt de g w)) = trace w @ [SendMessage c g txt, Sleep ?d1]"
    using assms(1) by (simp add: send_one_def emit_def Let_def)
  moreover have "real_of_int R \<le> ?d1 \<and> ?d1 \<le> real_of_int R + 15"
    using assms(2) by (simp add: randint_def)
  moreover have "\<exists>st. handle_cycle cfg uid e (Some (FloodWaitError R), w, l)
                       = (st, emit (Sleep ?d2) w, l)"
    by (simp add: handle_cycle_def)
  moreover have "real_of_int R \<le> ?d2 \<and> ?d2 \<le> real_of_int R + 15"
    using assms(3) by (simp add: randint_def)
  ultimately show ?thesis by blast
qed

theorem flood_wait_delay_bounds_witness:
  "at_send_message (calm_dest\<lparr>at_send_message := Some (FloodWaitError 30)\<rparr>)
     = Some (FloodWaitError 30)
   \<and> randint 5 15 (flood_extra (calm_dest\<lparr>at_send_message := Some (FloodWaitError 30)\<rparr>))
   \<and> randint 5 15 (cycle_flood_extra calm)
   \<and> (\<exists>d. trace (snd (send_one 0 ''hello''
                         (calm_dest\<lparr>at_send_message := Some (FloodWaitError 30)\<rparr>) 10
                         (boot ready_db)))
             = trace (boot ready_db) @ [SendMessage 0 10 ''hello'', Sleep d]
          \<and> 30 \<le> d \<and> d \<le> 30 + 15)"
  using flood_wait_delay_bounds
    [of "calm_dest\<lparr>at_send_message := Some (FloodWaitError 30)\<rparr>" 30 calm
        0 "''hello''" 10 "boot ready_db" cfg1 1 "\<lparr>retry_count = 0, client = None\<rparr>"]
  by (simp add: calm_dest_def calm_def randint_def)

text \<open>
  The draw 15 is one \<open>random.randint(5, 15)\<close> can return; with \<open>R = 30\<close> the sleep
  is then 45 seconds, which is not less than \<open>30 + 15\<close>.
\<close>

theorem flood_wait_delay_reaches_upper_bound:
  "randint 5 15 (flood_extra (calm_dest\<lparr>at_send_message := Some (FloodWaitError 30)\<rparr>))
   \<and> sleeps (trace (snd (send_one 0 ''hello''
                           (calm_dest\<lparr>at_send_message := Some (FloodWaitError 30)\<rparr>) 10
                           (boot ready_db)))) = [45]
   \<and> \<not> ((45::real) < 30 + 15)"
  by (simp add: calm_dest_def randint_def send_one_def emit_def boot_def)

text \<open>Consecutive cycle-level faults.\<close>

lemma sleeps_append [simp]: "sleeps (xs @ ys) = sleeps xs @ sleeps ys"
  by (induction xs rule: sleeps.induct) auto

lemma create_client_fails:
  assumes "\<not> pooled_connected e" and "at_connect e = Some x"
  shows "\<exists>w1. create_client uid e w = (Inl x, w1) \<and> db w1 = db w
           \<and> sleeps (trace w1) = sleeps (trace w)"
  using assms by (auto simp: create_client_def Let_def emit_def split: option.splits)

text \<open>
  One fault cycle: it adds one to \<open>retry_count\<close>; when the count has reached
  \<open>MAX_RETRY_ATTEMPTS\<close> it clears the flag and leaves, otherwise it sleeps and goes on.
\<close>

lemma fault_cycle:
  assumes f: "fault_env e" and r: "ready uid (clock e) (db w)"
  shows "\<exists>w1. db w1 = db w \<and> sleeps (trace w1) = sleeps (trace w) \<and>
           sending_cycle cfg uid e w l =
             (if MAX_RETRY_ATTEMPTS cfg \<le> int (Suc (retry_count l))
              then (Exit Break, set_active uid 0 (clock e) w1,
                    l\<lparr>retry_count := Suc (retry_count l)\<rparr>)
              else (Next,
                    emit (Sleep (of_int (backoff cfg (Suc (retry_count l))) + jitter e)) w1,
                    l\<lparr>retry_count := Suc (retry_count l)\<rparr>))"
proof -
  from r obtain u p m g gs where u: "get_user uid (db w) = Some u" "is_active u \<noteq> 0"
    "is_banned u \<noteq> 1" "clock e < subscription_until u"
    and pmg: "get_profile uid (db w) = Some p" "get_message uid (db w) = Some m"
      "get_user_groups uid (db w) = g # gs"
    by (auto simp: ready_def split: option.splits list.splits simp: neq_Nil_conv)
  from f have ch: "checking_phase uid e w = (Inr (p, m, g # gs), w)"
    by (intro checking_phase_ready[OF u _ _ _ _ _ pmg]) (simp_all add: fault_env_def)
  from f obtain w1 where w1: "create_client uid e w = (Inl OtherError, w1)" "db w1 = db w"
    "sleeps (trace w1) = sleeps (trace w)"
    using create_client_fails[of e OtherError uid w] by (auto simp: fault_env_def)
  from f w1(1) have s: "sending uid e (p, m, g # gs) w l = (Some OtherError, w1, l)"
    by (auto simp: sending_def fault_env_def split: option.splits)
  from f have "handle_cycle cfg uid e (Some OtherError, w1, l) =
             (if MAX_RETRY_ATTEMPTS cfg \<le> int (Suc (retry_count l))
              then (Exit Break, set_active uid 0 (clock e) w1,
                    l\<lparr>retry_count := Suc (retry_count l)\<rparr>)
              else (Next,
                    emit (Sleep (of_int (backoff cfg (Suc (retry_count l))) + jitter e)) w1,
                    l\<lparr>retry_count := Suc (retry_count l)\<rparr>))"
    by (simp add: handle_cycle_def fault_env_def Let_def)
  with ch s w1(2,3) show ?thesis by (auto simp: sending_cycle_def)
qed

lemma fault_run_keeps_retrying:
  assumes "\<forall>e\<in>set es. fault_env e \<and> ready uid (clock e) (db w)"
    and "int (retry_count l + length es) < MAX_RETRY_ATTEMPTS cfg"
  shows "\<exists>w' l'. run_cycles cfg uid es w l = Running w' l' \<and> db w' = db w
          \<and> retry_count l' = retry_count l + length es
          \<and> sleeps (trace w') = sleeps (trace w) @ backoff_delays cfg (retry_count l) es"
  using assms
proof (induction es arbitrary: w l)
  case Nil
  then show ?case by simp
next
  case (Cons e es)
  from Cons.prems(1) have fe: "fault_env e" "ready uid (clock e) (db w)" by simp_all
  from Cons.prems(2) have lt: "\<not> MAX_RETRY_ATTEMPTS cfg \<le> int (Suc (retry_count l))" by simp
  let ?l = "l\<lparr>retry_count := Suc (retry_count l)\<rparr>"
  from fault_cycle[OF fe, of cfg l] lt obtain w1 where w1: "db w1 = db w"
    "sleeps (trace w1) = sleeps (trace w)"
    "sending_cycle cfg uid e w l =
       (Next, emit (Sleep (of_int (backoff cfg (Suc (retry_count l))) + jitter e)) w1, ?l)"
    by auto
  let ?w = "emit (Sleep (of_int (backoff cfg (Suc (retry_count l))) + jitter e)) w1"
  have "\<forall>e\<in>set es. fault_env e \<and> ready uid (clock e) (db ?w)"
    using Cons.prems(1) w1(1) by simp
  moreover have "int (retry_count ?l + length es) < MAX_RETRY_ATTEMPTS cfg"
    using Cons.prems(2) by simp
  ultimately obtain w' l' where r: "run_cycles cfg uid es ?w ?l = Running w' l'" "db w' = db ?w"
    "retry_count l' = retry_count ?l + length es"
    "sleeps (trace w') = sleeps (trace ?w) @ backoff_delays cfg (retry_count ?l) es"
    using Cons.IH[of ?w ?l] by blast
  have "sleeps (trace ?w)
          = sleeps (trace w) @ [of_int (backoff cfg (Suc (retry_count l))) + jitter e]"
    using w1(2) by (simp add: emit_def)
  with r w1 show ?case
    by simp
qed

lemma fault_run_gives_up:
  assumes "\<forall>e\<in>set es. fault_env e \<and> ready uid (clock e) (db w)"
    and "es \<noteq> []"
    and "int (retry_count l + length es) = MAX_RETRY_ATTEMPTS cfg"
  shows "\<exists>w' l'. run_cycles cfg uid es w l = Exited Break w' l'
          \<and> map_option is_active (get_user uid (db w')) = Some 0"
proof -
  from assms(2) obtain fs e where es: "es = fs @ [e]" by (metis rev_exhaust)
  from assms(1,3) es have "\<forall>e\<in>set fs. fault_env e \<and> ready uid (clock e) (db w)"
    and "int (retry_count l + length fs) < MAX_RETRY_ATTEMPTS cfg" by auto
  then obtain w1 l1 where r: "run_cycles cfg uid fs w l = Running w1 l1" "db w1 = db w"
    "retry_count l1 = retry_count l + length fs"
    using fault_run_keeps_retrying[of fs uid w l cfg] by blast
  from assms(1) es r(2) have fe: "fault_env e" "ready uid (clock e) (db w1)" by simp_all
  from assms(3) es r(3) have "MAX_RETRY_ATTEMPTS cfg \<le> int (Suc (retry_count l1))" by simp
  with fault_cycle[OF fe, of cfg l1] obtain w2 where w2: "db w2 = db w1"
    "sending_cycle cfg uid e w1 l1 =
      (Exit Break, set_active uid 0 (clock e) w2, l1\<lparr>retry_count := Suc (retry_count l1)\<rparr>)"
    by auto
  from fe(2) w2(1) obtain u where "get_user uid (db w2) = Some u"
    by (auto simp: ready_def split: option.splits)
  then have "map_option is_active (get_user uid (db (set_active uid 0 (clock e) w2))) = Some 0"
    by (simp add: get_user_set_active)
  then show ?thesis using es r w2 by (simp add: run_cycles_append)
qed

lemma backoff_mono: "0 \<le> BASE_RETRY_DELAY cfg \<Longrightarrow> backoff cfg n \<le> backoff cfg (Suc n)"
  unfolding backoff_def by (simp add: min.coboundedI1 mult_left_mono)

text \<open>
  Below the cap one more fault doubles the delay before the jitter; from a base of 3
  seconds on, the step is more than the jitter can take back.
\<close>

lemma backoff_step:
  assumes "3 \<le> BASE_RETRY_DELAY cfg"
    and "BASE_RETRY_DELAY cfg * 2 ^ Suc (Suc n) \<le> MAX_RETRY_DELAY cfg"
  shows "backoff cfg (Suc n) + 6 \<le> backoff cfg (Suc (Suc n))"
proof -
  let ?B = "BASE_RETRY_DELAY cfg"
  have p: "(1::int) \<le> 2 ^ n" by simp
  from assms(1) p have "3 * 1 \<le> ?B * 2 ^ n" by (intro mult_mono) simp_all
  then have step: "?B * 2 ^ Suc n + 6 \<le> ?B * 2 ^ Suc (Suc n)" by simp
  from assms(1) have "?B * 2 ^ Suc n \<le> ?B * 2 ^ Suc (Suc n)" by simp
  with assms(2) have "backoff cfg (Suc n) = ?B * 2 ^ Suc n"
    unfolding backoff_def by (simp only: min_def) simp
  moreover from assms(2) have "backoff cfg (Suc (Suc n)) = ?B * 2 ^ Suc (Suc n)"
    unfolding backoff_def by (simp only: min_def) simp
  ultimately show ?thesis using step by simp
qed

lemma slept_delays_increase:
  assumes "3 \<le> BASE_RETRY_DELAY cfg"
    and "BASE_RETRY_DELAY cfg * 2 ^ Suc (Suc n) \<le> MAX_RETRY_DELAY cfg"
    and "uniform 0 5 j1" and "uniform 0 5 j2"
  shows "real_of_int (backoff cfg (Suc n)) + j1 < real_of_int (backoff cfg (Suc (Suc n))) + j2"
proof -
  from backoff_step [OF assms(1,2)]
  have "real_of_int (backoff cfg (Suc n)) + 6 \<le> real_of_int (backoff cfg (Suc (Suc n)))"
    by (metis of_int_add of_int_le_iff of_int_numeral)
  with assms(3,4) show ?thesis by (simp add: uniform_def)
qed

text \<open>
  Claim C3. Let the loop meet consecutive cycle-level faults, starting with
  \<open>retry_count = 0\<close>. After fewer than \<open>MAX_RETRY_ATTEMPTS\<close> of them it is still
  running: it has counted them and has slept after the k-th one for the backoff delay
  \<open>min(BASE_RETRY_DELAY * 2 ** k, MAX_RETRY_DELAY)\<close> plus the jitter drawn in that cycle.
  After exactly \<open>MAX_RETRY_ATTEMPTS\<close> of them it has cleared the active flag and left the
  loop. The backoff delay never decreases from one fault to the next when
  \<open>BASE_RETRY_DELAY\<close> is not negative; and with \<open>BASE_RETRY_DELAY\<close> at least 3 the delay
  slept, jitter included, grows strictly from one fault to the next as long as the cap
  is not reached.
\<close>

theorem retries_until_max_attempts:
  assumes "\<forall>e\<in>set es. fault_env e \<and> ready uid (clock e) (db w)"
    and "retry_count l = 0"
  shows "(int (length es) < MAX_RETRY_ATTEMPTS cfg \<longrightarrow>
            (\<exists>w' l'. run_cycles cfg uid es w l = Running w' l' \<and> retry_count l' = length es
               \<and> sleeps (trace w') = sleeps (trace w) @ backoff_delays cfg 0 es))
       \<and> (es \<noteq> [] \<and> int (length es) = MAX_RETRY_ATTEMPTS cfg \<longrightarrow>
            (\<exists>w' l'. run_cycles cfg uid es w l = Exited Break w' l'
               \<and> map_option is_active (get_user uid (db w')) = Some 0))
       \<and> (0 \<le> BASE_RETRY_DELAY cfg \<longrightarrow> (\<forall>n. backoff cfg n \<le> backoff cfg (Suc n)))
       \<and> (3 \<le> BASE_RETRY_DELAY cfg \<longrightarrow>
            (\<forall>n j1 j2. BASE_RETRY_DELAY cfg * 2 ^ Suc (Suc n) \<le> MAX_RETRY_DELAY cfg
                        \<and> uniform 0 5 j1 \<and> uniform 0 5 j2 \<longrightarrow>
               real_of_int (backoff cfg (Suc n)) + j1
                 < real_of_int (backoff cfg (Suc (Suc n))) + j2))"
proof (intro conjI impI allI)
  assume "int (length es) < MAX_RETRY_ATTEMPTS cfg"
  with assms
  show "\<exists>w' l'. run_cycles cfg uid es w l = Running w' l' \<and> retry_count l' = length es
               \<and> sleeps (trace w') = sleeps (trace w) @ backoff_delays cfg 0 es"
    using fault_run_keeps_retrying[of es uid w l cfg] by auto
next
  assume "es \<noteq> [] \<and> int (length es) = MAX_RETRY_ATTEMPTS cfg"
  with assms
  show "\<exists>w' l'. run_cycles cfg uid es w l = Exited Break w' l'
               \<and> map_option is_active (get_user uid (db w')) = Some 0"
    using fault_run_gives_up[of es uid w l cfg] by auto
next
  fix n
  assume "0 \<le> BASE_RETRY_DELAY cfg"
  then show "backoff cfg n \<le> backoff cfg (Suc n)" by (rule backoff_mono)
next
  fix n j1 j2
  assume "3 \<le> BASE_RETRY_DELAY cfg"
    and "BASE_RETRY_DELAY cfg * 2 ^ Suc (Suc n) \<le> MAX_RETRY_DELAY cfg
         \<and> uniform 0 5 j1 \<and> uniform 0 5 j2"
  then show "real_of_int (backoff cfg (Suc n)) + j1
               < real_of_int (backoff cfg (Suc (Suc n))) + j2"
    by (intro slept_delays_increase) simp_all
qed

theorem retries_until_max_attempts_witness:
  "fault_env broken \<and> ready 1 (clock broken) (db (boot ready_db))
   \<and> (\<exists>w' l'. run_cycles cfg1 1 [broken, broken] (boot ready_db)
                 \<lparr>retry_count = 0, client = None\<rparr> = Running w' l'
          \<and> retry_count l' = 2 \<and> sleeps (trace w') = [2, 4])
   \<and> (\<exists>w' l'. run_cycles cfg1 1 [broken, broken, broken] (boot ready_db)
                 \<lparr>retry_count = 0, client = None\<rparr> = Exited Break w' l'
          \<and> map_option is_active (get_user 1 (db w')) = Some 0)
   \<and> 0 \<le> BASE_RETRY_DELAY cfg1 \<and> backoff cfg1 1 \<le> backoff cfg1 2
   \<and> 3 \<le> BASE_RETRY_DELAY (cfg1\<lparr>BASE_RETRY_DELAY := 5\<rparr>)
   \<and> BASE_RETRY_DELAY (cfg1\<lparr>BASE_RETRY_DELAY := 5\<rparr>) * 2 ^ Suc (Suc 0)
        \<le> MAX_RETRY_DELAY (cfg1\<lparr>BASE_RETRY_DELAY := 5\<rparr>)
   \<and> uniform 0 5 5 \<and> uniform 0 5 0
   \<and> real_of_int (backoff (cfg1\<lparr>BASE_RETRY_DELAY := 5\<rparr>) (Suc 0)) + 5
        < real_of_int (backoff (cfg1\<lparr>BASE_RETRY_DELAY := 5\<rparr>) (Suc (Suc 0))) + 0"
proof -
  have f: "fault_env broken" by (simp add: fault_env_def broken_def calm_def)
  have r: "ready 1 (clock broken) (db (boot ready_db))"
    by (simp add: ready_def broken_def fixture_defs store_defs)
  have j: "jitter broken = 0" by (simp add: broken_def calm_def)
  have two: "\<forall>e\<in>set [broken, broken]. fault_env e \<and> ready 1 (clock e) (db (boot ready_db))"
    using f r by simp
  have three: "\<forall>e\<in>set [broken, broken, broken].
                 fault_env e \<and> ready 1 (clock e) (db (boot ready_db))"
    using f r by simp
  let ?l0 = "\<lparr>retry_count = 0, client = None\<rparr>"
  let ?c5 = "cfg1\<lparr>BASE_RETRY_DELAY := 5\<rparr>"
  have l0: "retry_count ?l0 = 0" by simp
  have lt: "int (length [broken, broken]) < MAX_RETRY_ATTEMPTS cfg1"
    and eq: "[broken, broken, broken] \<noteq> []
             \<and> int (length [broken, broken, broken]) = MAX_RETRY_ATTEMPTS cfg1"
    by (simp_all add: cfg1_def)
  have d: "sleeps (trace (boot ready_db)) @ backoff_delays cfg1 0 [broken, broken] = [2, 4]"
    by (simp add: boot_def backoff_def cfg1_def j)
  note t2 = retries_until_max_attempts [OF two l0, of cfg1]
  note t3 = retries_until_max_attempts [OF three l0, of cfg1]
  note t5 = retries_until_max_attempts [OF two l0, of ?c5]
  from t2 lt
  obtain w2 l2 where "run_cycles cfg1 1 [broken, broken] (boot ready_db) ?l0 = Running w2 l2"
    "retry_count l2 = length [broken, broken]"
    "sleeps (trace w2) = sleeps (trace (boot ready_db)) @ backoff_delays cfg1 0 [broken, broken]"
    by auto
  with d have "run_cycles cfg1 1 [broken, broken] (boot ready_db) ?l0 = Running w2 l2
      \<and> retry_count l2 = 2 \<and> sleeps (trace w2) = [2, 4]"
    by (simp del: run_cycles.simps)
  then have two': "\<exists>w' l'. run_cycles cfg1 1 [broken, broken] (boot ready_db) ?l0 = Running w' l'
      \<and> retry_count l' = 2 \<and> sleeps (trace w') = [2, 4]"
    by blast
  from t3 eq
  have three': "\<exists>w' l'. run_cycles cfg1 1 [broken, broken, broken] (boot ready_db) ?l0
                  = Exited Break w' l' \<and> map_option is_active (get_user 1 (db w')) = Some 0"
    by blast
  have b0: "0 \<le> BASE_RETRY_DELAY cfg1" by (simp add: cfg1_def)
  from t2 b0 have m: "backoff cfg1 1 \<le> backoff cfg1 2"
    by (metis Suc_1)
  have b3: "3 \<le> BASE_RETRY_DELAY ?c5"
    and cap: "BASE_RETRY_DELAY ?c5 * 2 ^ Suc (Suc 0) \<le> MAX_RETRY_DELAY ?c5"
    and u: "uniform 0 5 5" "uniform 0 5 0"
    by (simp_all add: cfg1_def uniform_def)
  from t5 b3 cap u
  have s: "real_of_int (backoff ?c5 (Suc 0)) + 5 < real_of_int (backoff ?c5 (Suc (Suc 0))) + 0"
    by blast
  show ?thesis by (intro conjI f r two' three' b0 m b3 cap u s)
qed

text \<open>
  The \<open>finally\<close> block on every way out: whenever the coroutine ends, by \<open>break\<close>, by
  cancellation or by an exception that reached the outer handlers, the user has no
  entry in \<open>clients\<close> and none in \<open>active_tasks\<close>, and the only call the block makes on
  the transport is \<open>disconnect\<close> on the loop's local \<open>client\<close>, when there is one and it
  reports connected.
\<close>

lemma finally_on_every_exit:
  assumes "sending_loop cfg uid es fe w = Some (r, w')"
  shows "clients w' uid = None \<and> active_tasks w' uid = None
       \<and> (\<exists>s w1 l1. run_cycles cfg uid es w \<lparr>retry_count = 0, client = None\<rparr> = Exited s w1 l1
            \<and> trace w' = trace w1 @ (case client l1 of
                                        Some c \<Rightarrow> if final_connected fe then [Disconnect c] else []
                                      | None \<Rightarrow> []))"
proof (cases "run_cycles cfg uid es w \<lparr>retry_count = 0, client = None\<rparr>")
  case (Running w1 l1)
  with assms show ?thesis by (simp add: sending_loop_def)
next
  case (Exited s w1 l1)
  with assms have w': "w' = snd (loop_exit uid fe s w1 l1)" by (auto simp: sending_loop_def)
  obtain w0 where w0: "w' = loop_finally uid (final_connected fe) (client l1) w0"
    "trace w0 = trace w1"
    using loop_exit_world[of uid fe s w1 l1] w' by auto
  show ?thesis using Exited w0 by (simp add: loop_finally_entries loop_finally_trace)
qed

text \<open>
  Claim C5. On every way out the two entries of the user are removed. The transport
  client of the user is not always disconnected, though: the \<open>finally\<close> block
  disconnects the local variable \<open>client\<close> only. When the loop leaves before it has
  taken a client (the checks of lines 167 to 184 end the first cycle, or an awaited
  store call raises or is cancelled there) while \<open>clients\<close> holds a client of the user,
  put there by \<open>create_client\<close> on behalf of \<open>get_user_dialogs\<close>, the block deletes that
  entry and makes no call on the transport: the trace after the coroutine is the trace
  on leaving the loop. The claim that the client is disconnected if connected does not
  hold of the code on this path; \<open>stop_sending\<close> disconnects such a client before it
  deletes the entry.
\<close>

theorem loop_drops_pooled_client_without_disconnect:
  assumes "run_cycles cfg uid es w \<lparr>retry_count = 0, client = None\<rparr> = Exited s w1 l1"
    and "clients w1 uid = Some c" and "client l1 = None"
  shows "\<exists>r w'. sending_loop cfg uid es fe w = Some (r, w')
           \<and> clients w' uid = None \<and> active_tasks w' uid = None
           \<and> trace w' = trace w1"
proof -
  obtain r w' where h: "sending_loop cfg uid es fe w = Some (r, w')"
    using assms(1) by (cases "loop_exit uid fe s w1 l1") (simp add: sending_loop_def)
  from finally_on_every_exit [OF h] assms(1,3)
  have "clients w' uid = None \<and> active_tasks w' uid = None \<and> trace w' = trace w1"
    by auto
  with h show ?thesis by blast
qed

theorem loop_drops_pooled_client_without_disconnect_witness:
  "clients (start_sending 50 1 pooled) 1 = Some 0
   \<and> trace (start_sending 50 1 pooled) = [Connect 0]
   \<and> run_cycles cfg1 1 [calm\<lparr>clock := 1000\<rparr>] (start_sending 50 1 pooled)
        \<lparr>retry_count = 0, client = None\<rparr>
      = Exited Break (set_active 1 0 1000 (start_sending 50 1 pooled))
          \<lparr>retry_count = 0, client = None\<rparr>
   \<and> (\<exists>r w'. sending_loop cfg1 1 [calm\<lparr>clock := 1000\<rparr>] calm_exit (start_sending 50 1 pooled)
                = Some (r, w')
          \<and> clients w' 1 = None \<and> active_tasks w' 1 = None \<and> trace w' = [Connect 0])
   \<and> trace (stop_sending 60 True 1 pooled) = [Connect 0, Disconnect 0]"
proof -
  let ?w = "start_sending 50 1 pooled"
  let ?e = "calm\<lparr>clock := 1000\<rparr>"
  let ?l = "\<lparr>retry_count = 0, client = None\<rparr>"
  let ?w1 = "set_active 1 0 1000 ?w"
  have c: "clients ?w 1 = Some 0" and t: "trace ?w = [Connect 0]"
    by (simp_all add: pooled_def create_client_def emit_def fixture_defs store_defs registry_defs)
  have u: "get_user 1 (db ?w) = Some (user1\<lparr>updated_at := 50\<rparr>)"
    by (simp add: pooled_def create_client_def emit_def fixture_defs store_defs registry_defs)
  have "checking_phase 1 ?e ?w = (Inl Break, set_active 1 0 (clock ?e) ?w)"
    by (rule checking_phase_expired [OF u]) (simp_all add: fixture_defs)
  then have run: "run_cycles cfg1 1 [?e] ?w ?l = Exited Break ?w1 ?l"
    by (simp add: sending_cycle_def calm_def)
  have c1: "clients ?w1 1 = Some 0" and t1: "trace ?w1 = [Connect 0]"
    using c t by (simp_all add: set_active_def)
  have l: "client ?l = None" by simp
  from loop_drops_pooled_client_without_disconnect [OF run c1 l, of calm_exit] t1
  have ex: "\<exists>r w'. sending_loop cfg1 1 [?e] calm_exit ?w = Some (r, w')
          \<and> clients w' 1 = None \<and> active_tasks w' 1 = None \<and> trace w' = [Connect 0]"
    by simp
  have s: "trace (stop_sending 60 True 1 pooled) = [Connect 0, Disconnect 0]"
    by (simp add: pooled_def create_client_def emit_def fixture_defs store_defs registry_defs)
  show ?thesis by (intro conjI c t run ex s)
qed

text \<open>
  Claim C7. When the subscription check of a cycle fails (the clock has reached
  \<open>subscription_until\<close>), the loop leaves in that cycle; on leaving the loop body the
  stored active flag is 0 and the registry entry of the task is still there; the
  \<open>finally\<close> block then removes the entry, and the flag is still 0.
\<close>

theorem expired_subscription_stops_loop:
  assumes "get_user uid (db w) = Some r" and "is_active r \<noteq> 0" and "is_banned r \<noteq> 1"
    and "subscription_until r \<le> clock e"
    and "at_get_user e = None" and "at_check_subscription e = None" and "at_mark_expired e = None"
    and "active_tasks w uid = Some t"
  shows "\<exists>w1 w2. run_cycles cfg uid (e # es) w l = Exited Break w1 l
          \<and> map_option is_active (get_user uid (db w1)) = Some 0
          \<and> active_tasks w1 uid = Some t
          \<and> loop_exit uid fe Break w1 l = (None, w2)
          \<and> map_option is_active (get_user uid (db w2)) = Some 0
          \<and> active_tasks w2 uid = None"
proof -
  let ?w1 = "set_active uid 0 (clock e) w"
  let ?w2 = "loop_finally uid (final_connected fe) (client l) ?w1"
  have "checking_phase uid e w = (Inl Break, ?w1)"
    using assms(1-7) by (rule checking_phase_expired)
  then have "run_cycles cfg uid (e # es) w l = Exited Break ?w1 l"
    by (simp add: sending_cycle_def)
  moreover have "map_option is_active (get_user uid (db ?w1)) = Some 0"
    using assms(1) by (simp add: get_user_set_active)
  moreover have "active_tasks ?w1 uid = Some t"
    using assms(8) by (simp add: set_active_def)
  moreover have "loop_exit uid fe Break ?w1 l = (None, ?w2)"
    by (simp add: loop_exit_def)
  moreover have "map_option is_active (get_user uid (db ?w2)) = Some 0"
    using assms(1) by (simp add: get_user_set_active)
  moreover have "active_tasks ?w2 uid = None"
    by (simp add: loop_finally_entries)
  ultimately show ?thesis by blast
qed

theorem expired_subscription_stops_loop_witness:
  "get_user 1 (db (start_sending 50 1 (boot ready_db))) = Some (user1\<lparr>updated_at := 50\<rparr>)
   \<and> is_active (user1\<lparr>updated_at := 50\<rparr>) = 1 \<and> is_banned (user1\<lparr>updated_at := 50\<rparr>) = 0
   \<and> subscription_until (user1\<lparr>updated_at := 50\<rparr>) \<le> clock (calm\<lparr>clock := 1000\<rparr>)
   \<and> active_tasks (start_sending 50 1 (boot ready_db)) 1 = Some 0
   \<and> (\<exists>w1 w2. run_cycles cfg1 1 [calm\<lparr>clock := 1000\<rparr>] (start_sending 50 1 (boot ready_db))
                  \<lparr>retry_count = 0, client = None\<rparr>
                = Exited Break w1 \<lparr>retry_count = 0, client = None\<rparr>
          \<and> map_option is_active (get_user 1 (db w1)) = Some 0
          \<and> active_tasks w1 1 = Some 0
          \<and> loop_exit 1 calm_exit Break w1 \<lparr>retry_count = 0, client = None\<rparr> = (None, w2)
          \<and> map_option is_active (get_user 1 (db w2)) = Some 0
          \<and> active_tasks w2 1 = None)"
proof -
  let ?w = "start_sending 50 1 (boot ready_db)"
  let ?r = "user1\<lparr>updated_at := 50\<rparr>"
  let ?e = "calm\<lparr>clock := 1000\<rparr>"
  have h: "get_user 1 (db ?w) = Some ?r" "is_active ?r \<noteq> 0" "is_banned ?r \<noteq> 1"
    "subscription_until ?r \<le> clock ?e"
    "at_get_user ?e = None" "at_check_subscription ?e = None" "at_mark_expired ?e = None"
    "active_tasks ?w 1 = Some 0"
    by (simp_all add: fixture_defs store_defs registry_defs)
  have v: "is_active ?r = 1" "is_banned ?r = 0"
    by (simp_all add: fixture_defs)
  note t = expired_subscription_stops_loop [OF h, of cfg1 "[]" "\<lparr>retry_count = 0, client = None\<rparr>" calm_exit]
  show ?thesis by (intro conjI h(1) v h(4) h(8) t)
qed

text \<open>
  Claim C9. A run of the loop that is left through \<open>CancelledError\<close> returns with
  the store exactly as it was when the loop started: no cycle before it wrote, the
  handler \<open>except asyncio.CancelledError: pass\<close> writes nothing, and neither does the
  \<open>finally\<close> block. The active flag is therefore what the caller of \<open>stop_sending\<close>
  made it: the store after \<open>stop_sending\<close>, with the cancelled task awaited, is the
  store after its own update and nothing else.
\<close>

theorem cancellation_exit_writes_nothing:
  assumes "run_cycles cfg uid es w \<lparr>retry_count = 0, client = None\<rparr>
             = Exited (Raise CancelledError) w1 l1"
  shows "(\<exists>w'. sending_loop cfg uid es fe w = Some (None, w') \<and> db w' = db w)
       \<and> db (stop_sending now conn uid w0) = update_user_active_status uid 0 now (db w0)"
proof -
  from assms have "db w1 = db w" by (rule run_cycles_cancel_db)
  then have "db (loop_finally uid (final_connected fe) (client l1) w1) = db w" by simp
  with assms show ?thesis
    by (simp add: sending_loop_def loop_exit_def db_stop_sending)
qed

theorem cancellation_exit_writes_nothing_witness:
  "(\<exists>w1 l1. run_cycles cfg1 1 [calm, calm\<lparr>interval_cancelled := True\<rparr>]
               (start_sending 50 1 (boot ready_db)) \<lparr>retry_count = 0, client = None\<rparr>
             = Exited (Raise CancelledError) w1 l1)
   \<and> (\<exists>w'. sending_loop cfg1 1 [calm, calm\<lparr>interval_cancelled := True\<rparr>] calm_exit
              (start_sending 50 1 (boot ready_db)) = Some (None, w')
          \<and> db w' = db (start_sending 50 1 (boot ready_db)))
   \<and> map_option is_active (get_user 1 (db (start_sending 50 1 (boot ready_db)))) = Some 1"
proof -
  let ?w = "start_sending 50 1 (boot ready_db)"
  let ?es = "[calm, calm\<lparr>interval_cancelled := True\<rparr>]"
  have ex: "\<exists>w1 l1. run_cycles cfg1 1 ?es ?w \<lparr>retry_count = 0, client = None\<rparr>
             = Exited (Raise CancelledError) w1 l1"
    by (simp add: fixture_defs store_defs loop_defs registry_defs)
  then obtain w1 l1 where h: "run_cycles cfg1 1 ?es ?w \<lparr>retry_count = 0, client = None\<rparr>
             = Exited (Raise CancelledError) w1 l1" by blast
  from cancellation_exit_writes_nothing [OF h, of calm_exit]
  have c: "\<exists>w'. sending_loop cfg1 1 ?es calm_exit ?w = Some (None, w') \<and> db w' = db ?w"
    by blast
  have f: "map_option is_active (get_user 1 (db ?w)) = Some 1"
    by (simp add: fixture_defs store_defs registry_defs)
  show ?thesis by (intro conjI ex c f)
qed

section \<open>Facts about the registry and the restore\<close>

lemma set_active_fields [simp]:
  "active_tasks (set_active uid v n w) = active_tasks w"
  "clients (set_active uid v n w) = clients w"
  "tasks (set_active uid v n w) = tasks w"
  "next_task (set_active uid v n w) = next_task w"
  "next_client (set_active uid v n w) = next_client w"
  "trace (set_active uid v n w) = trace w"
  "subscription_checker_task (set_active uid v n w) = subscription_checker_task w"
  by (simp_all add: set_active_def)

lemma set_active_tables [simp]:
  "profiles (db (set_active uid v n w)) = profiles (db w)"
  "messages (db (set_active uid v n w)) = messages (db w)"
  "user_groups (db (set_active uid v n w)) = user_groups (db w)"
  by (simp_all add: set_active_def update_user_active_status_def)

lemma live_tasks_set_active [simp]: "live_tasks u (set_active uid v n w) = live_tasks u w"
  by (simp add: live_tasks_def)

lemma live_tasks_resume:
  "live_tasks u (start_sending_resume uid w) =
     live_tasks u w @ (if uid = u then [next_task w] else [])"
  by (auto simp: live_tasks_def start_sending_resume_def Let_def intro!: filter_cong)

lemma start_sending_tables [simp]:
  "profiles (db (start_sending n uid w)) = profiles (db w)"
  "messages (db (start_sending n uid w)) = messages (db w)"
  "user_groups (db (start_sending n uid w)) = user_groups (db w)"
  by (simp_all add: start_sending_def start_sending_enter_def start_sending_resume_def Let_def
      split: option.splits)

lemma db_resume [simp]: "db (start_sending_resume uid w) = db w"
  by (simp add: start_sending_resume_def Let_def)

lemma active_tasks_resume:
  "active_tasks (start_sending_resume uid w) = (active_tasks w)(uid \<mapsto> next_task w)"
  by (simp add: start_sending_resume_def Let_def)

lemma start_sending_other:
  assumes "u \<noteq> uid"
  shows "get_user u (db (start_sending n uid w)) = get_user u (db w)"
    and "active_tasks (start_sending n uid w) u = active_tasks w u"
    and "live_tasks u (start_sending n uid w) = live_tasks u w"
  using assms
  by (auto simp: start_sending_def start_sending_enter_def get_user_set_active live_tasks_resume
      active_tasks_resume split: option.splits)

lemma restore_user_tables [simp]:
  "profiles (db (restore_user n uid w)) = profiles (db w)"
  "messages (db (restore_user n uid w)) = messages (db w)"
  "user_groups (db (restore_user n uid w)) = user_groups (db w)"
  by (simp_all add: restore_user_def split: option.splits list.splits)

lemma restore_user_other:
  assumes "u \<noteq> uid"
  shows "get_user u (db (restore_user n uid w)) = get_user u (db w)"
    and "active_tasks (restore_user n uid w) u = active_tasks w u"
    and "live_tasks u (restore_user n uid w) = live_tasks u w"
  using assms
  by (auto simp: restore_user_def get_user_set_active start_sending_other
      split: option.splits list.splits)

lemma heap_ok_set_active [simp]: "heap_ok (set_active uid v n w) = heap_ok w"
  by (simp add: heap_ok_def)

lemma heap_ok_resume: "heap_ok w \<Longrightarrow> heap_ok (start_sending_resume uid w)"
  by (simp add: heap_ok_def start_sending_resume_def Let_def)

lemma heap_ok_start: "heap_ok w \<Longrightarrow> heap_ok (start_sending n uid w)"
  by (auto simp: start_sending_def start_sending_enter_def heap_ok_resume split: option.splits)

lemma heap_ok_restore_user: "heap_ok w \<Longrightarrow> heap_ok (restore_user n uid w)"
  by (auto simp: restore_user_def heap_ok_start split: option.splits list.splits)

lemma fold_restore_other:
  assumes "u \<notin> user_id ` set us"
  shows "get_user u (db (fold (\<lambda>r. restore_user (now (user_id r)) (user_id r)) us w)) = get_user u (db w)
       \<and> active_tasks (fold (\<lambda>r. restore_user (now (user_id r)) (user_id r)) us w) u = active_tasks w u
       \<and> live_tasks u (fold (\<lambda>r. restore_user (now (user_id r)) (user_id r)) us w) = live_tasks u w"
  using assms
  by (induction us arbitrary: w) (auto simp: restore_user_other)

lemma fold_restore_tables:
  "profiles (db (fold (\<lambda>r. restore_user (now (user_id r)) (user_id r)) us w)) = profiles (db w)
 \<and> messages (db (fold (\<lambda>r. restore_user (now (user_id r)) (user_id r)) us w)) = messages (db w)
 \<and> user_groups (db (fold (\<lambda>r. restore_user (now (user_id r)) (user_id r)) us w)) = user_groups (db w)"
  by (induction us arbitrary: w) auto

lemma fold_restore_heap_ok:
  "heap_ok w \<Longrightarrow> heap_ok (fold (\<lambda>r. restore_user (now (user_id r)) (user_id r)) us w)"
  by (induction us arbitrary: w) (auto simp: heap_ok_restore_user)

lemma checker_restore_user [simp]:
  "subscription_checker_task (restore_user n uid w) = subscription_checker_task w"
  by (simp add: restore_user_def start_sending_def start_sending_enter_def
      start_sending_resume_def Let_def split: option.splits list.splits)

lemma fold_restore_checker:
  "subscription_checker_task (fold (\<lambda>r. restore_user (now (user_id r)) (user_id r)) us w)
     = subscription_checker_task w"
  by (induction us arbitrary: w) auto

text \<open>The checker task that \<open>restore_active_tasks\<close> creates at the end is no send task.\<close>

lemma restore_active_tasks_unfold:
  assumes "subscription_checker_task w = None"
  shows "restore_active_tasks now w =
     (let w1 = fold (\<lambda>r. restore_user (now (user_id r)) (user_id r)) (get_active_users (db w)) w
      in w1\<lparr>subscription_checker_task := Some (next_task w1), next_task := Suc (next_task w1)\<rparr>)"
  using assms by (simp add: restore_active_tasks_def Let_def fold_restore_checker)

lemma live_tasks_alloc:
  assumes "heap_ok w"
  shows "live_tasks u (w\<lparr>subscription_checker_task := Some (next_task w), next_task := Suc (next_task w)\<rparr>)
          = live_tasks u w"
  using assms by (simp add: live_tasks_def heap_ok_def)

text \<open>
  When \<open>restore_active_tasks\<close> comes to an active user who is not banned, the user's
  rows and registry entry are as they were at boot; what it leaves for that user is what
  \<open>restore_user\<close> made of them.
\<close>

lemma restore_at_user:
  assumes pk: "primary_key d" and mem: "r \<in> set (users d)"
    and act: "is_active r = 1" and ban: "is_banned r = 0"
  shows "\<exists>wA. get_user (user_id r) (db wA) = Some r
           \<and> profiles (db wA) = profiles d \<and> messages (db wA) = messages d
           \<and> user_groups (db wA) = user_groups d
           \<and> active_tasks wA (user_id r) = None \<and> live_tasks (user_id r) wA = []
           \<and> (let wB = restore_user (now (user_id r)) (user_id r) wA;
                   w' = restore_active_tasks now (boot d)
               in get_user (user_id r) (db w') = get_user (user_id r) (db wB)
                \<and> active_tasks w' (user_id r) = active_tasks wB (user_id r)
                \<and> live_tasks (user_id r) w' = live_tasks (user_id r) wB)"
proof -
  let ?u = "user_id r"
  let ?F = "\<lambda>r. restore_user (now (user_id r)) (user_id r)"
  from mem act ban have "r \<in> set (get_active_users d)" by (simp add: get_active_users_def)
  then obtain xs ys where split: "get_active_users d = xs @ r # ys" by (meson split_list)
  from pk have "distinct (map user_id (get_active_users d))"
    unfolding primary_key_def get_active_users_def by (rule distinct_map_filter)
  with split have nx: "?u \<notin> user_id ` set xs" and ny: "?u \<notin> user_id ` set ys" by auto
  let ?wA = "fold ?F xs (boot d)"
  let ?wB = "restore_user (now ?u) ?u ?wA"
  let ?wC = "fold ?F ys ?wB"
  have hb: "heap_ok (boot d)" by (simp add: heap_ok_def boot_def)
  have A: "get_user ?u (db ?wA) = get_user ?u d" "active_tasks ?wA ?u = None"
    "live_tasks ?u ?wA = []"
    using fold_restore_other[OF nx, of now "boot d"] by (simp_all add: boot_def live_tasks_def)
  have At: "profiles (db ?wA) = profiles d" "messages (db ?wA) = messages d"
    "user_groups (db ?wA) = user_groups d"
    using fold_restore_tables[of now xs "boot d"] by (simp_all add: boot_def)
  have C: "get_user ?u (db ?wC) = get_user ?u (db ?wB)"
    "active_tasks ?wC ?u = active_tasks ?wB ?u" "live_tasks ?u ?wC = live_tasks ?u ?wB"
    using fold_restore_other[OF ny, of now ?wB] by simp_all
  have hC: "heap_ok ?wC"
    by (intro fold_restore_heap_ok heap_ok_restore_user hb)
  have fold_all: "fold ?F (get_active_users d) (boot d) = ?wC" by (simp add: split)
  have "subscription_checker_task (boot d) = None" "db (boot d) = d" by (simp_all add: boot_def)
  then have w': "restore_active_tasks now (boot d) =
      ?wC\<lparr>subscription_checker_task := Some (next_task ?wC), next_task := Suc (next_task ?wC)\<rparr>"
    using fold_all by (simp add: restore_active_tasks_unfold Let_def del: fold_append fold_Cons)
  have D: "get_user ?u (db (restore_active_tasks now (boot d))) = get_user ?u (db ?wB)"
    "active_tasks (restore_active_tasks now (boot d)) ?u = active_tasks ?wB ?u"
    "live_tasks ?u (restore_active_tasks now (boot d)) = live_tasks ?u ?wB"
    unfolding w' using C live_tasks_alloc[OF hC, of ?u] by simp_all
  from pk mem have "get_user ?u d = Some r" by (rule get_user_mem)
  with A At D show ?thesis
    by (intro exI[of _ ?wA]) (simp add: Let_def)
qed

text \<open>\<open>stop_sending\<close> and \<open>start_sending\<close>, one call running alone.\<close>

lemma stop_sending_entries:
  "active_tasks (stop_sending now conn uid w) uid = None
   \<and> clients (stop_sending now conn uid w) uid = None"
  by (auto simp: stop_sending_def Let_def emit_def split: option.splits)

lemma stop_sending_nothing_to_stop:
  assumes "active_tasks w uid = None" and "clients w uid = None"
  shows "stop_sending now conn uid w = set_active uid 0 now w"
  using assms by (simp add: stop_sending_def Let_def)

lemma update_twice:
  "update_user_active_status uid v n2 (update_user_active_status uid v n1 d)
     = update_user_active_status uid v n2 d"
  by (simp add: update_user_active_status_def comp_def cong: map_cong if_cong)

lemma start_sending_noop:
  assumes "active_tasks w uid = Some t" and "\<not> task_done w t"
  shows "start_sending now uid w = w"
  using assms by (simp add: start_sending_def start_sending_enter_def)

lemma start_sending_goes_on:
  assumes "active_tasks w uid = None \<or> (\<exists>t. active_tasks w uid = Some t \<and> task_done w t)"
  shows "start_sending now uid w = start_sending_resume uid (set_active uid 1 now w)"
  using assms by (auto simp: start_sending_def start_sending_enter_def)

lemma start_sending_spawns:
  assumes "active_tasks w uid = None \<or> (\<exists>t. active_tasks w uid = Some t \<and> task_done w t)"
  shows "db (start_sending now uid w) = update_user_active_status uid 1 now (db w)"
    and "active_tasks (start_sending now uid w) = (active_tasks w)(uid \<mapsto> next_task w)"
    and "tasks (start_sending now uid w)
           = (tasks w)(next_task w \<mapsto> \<lparr>task_user = uid, task_state = Pending\<rparr>)"
    and "next_task (start_sending now uid w) = Suc (next_task w)"
    and "live_tasks uid (start_sending now uid w) = live_tasks uid w @ [next_task w]"
proof -
  note eq = start_sending_goes_on[OF assms, of now]
  show "db (start_sending now uid w) = update_user_active_status uid 1 now (db w)"
    unfolding eq by (simp add: set_active_def)
  show "active_tasks (start_sending now uid w) = (active_tasks w)(uid \<mapsto> next_task w)"
    unfolding eq by (simp add: active_tasks_resume)
  show "tasks (start_sending now uid w)
           = (tasks w)(next_task w \<mapsto> \<lparr>task_user = uid, task_state = Pending\<rparr>)"
    unfolding eq by (simp add: start_sending_resume_def Let_def)
  show "next_task (start_sending now uid w) = Suc (next_task w)"
    unfolding eq by (simp add: start_sending_resume_def Let_def)
  show "live_tasks uid (start_sending now uid w) = live_tasks uid w @ [next_task w]"
    unfolding eq by (simp add: live_tasks_resume)
qed

lemma live_tasks_registered:
  assumes "registry_ok w" and "t \<in> set (live_tasks uid w)"
  shows "active_tasks w uid = Some t"
  using assms by (auto simp: registry_ok_def live_tasks_def split: option.splits)

lemma one_live_task:
  assumes "registry_ok w"
  shows "length (live_tasks uid w) \<le> 1"
proof -
  have d: "distinct (live_tasks uid w)" by (simp add: live_tasks_def)
  have "set (live_tasks uid w) \<subseteq> {t. active_tasks w uid = Some t}"
    using live_tasks_registered[OF assms] by auto
  moreover have "card {t. active_tasks w uid = Some t} \<le> 1"
    by (cases "active_tasks w uid") (simp_all add: card_le_Suc0_iff_eq)
  moreover have "finite {t. active_tasks w uid = Some t}"
    by (cases "active_tasks w uid") simp_all
  ultimately have "card (set (live_tasks uid w)) \<le> 1"
    by (meson card_mono le_trans)
  with d show ?thesis by (simp add: distinct_card)
qed

lemma registry_ok_start:
  assumes "registry_ok w"
  shows "registry_ok (start_sending now uid w)"
proof (cases "active_tasks w uid = None \<or> (\<exists>t. active_tasks w uid = Some t \<and> task_done w t)")
  case False
  then obtain t where "active_tasks w uid = Some t" "\<not> task_done w t" by auto
  then show ?thesis using assms by (simp add: start_sending_noop)
next
  case True
  note s = start_sending_spawns[OF True, of now]
  have h: "heap_ok (start_sending now uid w)"
    using assms by (simp add: registry_ok_def heap_ok_start)
  have nolive: "\<And>t tk. tasks w t = Some tk \<Longrightarrow> task_state tk \<noteq> Done \<Longrightarrow> task_user tk \<noteq> uid"
  proof
    fix t tk assume a: "tasks w t = Some tk" "task_state tk \<noteq> Done" "task_user tk = uid"
    with assms have "active_tasks w uid = Some t" by (auto simp: registry_ok_def)
    with True a show False by (auto simp: task_done_def)
  qed
  from assms have fresh: "tasks w (next_task w) = None" by (simp add: registry_ok_def heap_ok_def)
  show ?thesis
    unfolding registry_ok_def
  proof (intro conjI allI impI)
    show "heap_ok (start_sending now uid w)" by (rule h)
  next
    fix t tk
    assume a: "tasks (start_sending now uid w) t = Some tk" "task_state tk \<noteq> Done"
    show "active_tasks (start_sending now uid w) (task_user tk) = Some t"
    proof (cases "t = next_task w")
      case True
      with a s(3) have "task_user tk = uid" by auto
      with True s(2) show ?thesis by simp
    next
      case False
      with a s(3) have old: "tasks w t = Some tk" by simp
      from old a(2) have "task_user tk \<noteq> uid" by (rule nolive)
      moreover from assms old a(2) have "active_tasks w (task_user tk) = Some t"
        by (auto simp: registry_ok_def)
      ultimately show ?thesis using s(2) by simp
    qed
  qed
qed

lemma registry_ok_stop:
  assumes "registry_ok w"
  shows "registry_ok (stop_sending now conn uid w)"
proof -
  let ?w' = "stop_sending now conn uid w"
  have nt: "next_task ?w' = next_task w"
    by (auto simp: stop_sending_def Let_def await_cancelled_def emit_def loop_finally_def
        cleanup_entries_def split: option.splits task_state.splits)
  have tk: "\<And>t tk'. tasks ?w' t = Some tk' \<Longrightarrow> task_state tk' \<noteq> Done \<Longrightarrow>
             tasks w t = Some tk' \<and> active_tasks w uid \<noteq> Some t"
    by (auto simp: stop_sending_def Let_def await_cancelled_def emit_def loop_finally_def
        cleanup_entries_def task_done_def split: option.splits task_state.splits if_splits)
  have dom: "\<And>t. tasks w t = None \<Longrightarrow> tasks ?w' t = None"
    by (auto simp: stop_sending_def Let_def await_cancelled_def emit_def loop_finally_def
        cleanup_entries_def task_done_def split: option.splits task_state.splits if_splits)
  have keep: "\<And>u t. active_tasks w u = Some t \<Longrightarrow> active_tasks w uid \<noteq> Some t \<Longrightarrow>
             active_tasks ?w' u = Some t"
    using assms
    by (auto simp: stop_sending_def Let_def await_cancelled_def emit_def loop_finally_def
        cleanup_entries_def task_done_def registry_ok_def
        split: option.splits task_state.splits if_splits)
  show ?thesis
    unfolding registry_ok_def
  proof (intro conjI allI impI)
    show "heap_ok ?w'" using assms dom nt by (auto simp: registry_ok_def heap_ok_def)
  next
    fix t tk' assume a: "tasks ?w' t = Some tk'" "task_state tk' \<noteq> Done"
    from tk[OF a] have o: "tasks w t = Some tk'" "active_tasks w uid \<noteq> Some t" by simp_all
    with assms a(2) have "active_tasks w (task_user tk') = Some t" by (auto simp: registry_ok_def)
    from this o(2) show "active_tasks ?w' (task_user tk') = Some t" by (rule keep)
  qed
qed

text \<open>The loop touches the registry in its \<open>finally\<close> block only.\<close>

lemma registry_emit [simp]: "registry (emit ev w) = registry w"
  by (simp add: registry_def emit_def)

lemma registry_set_active [simp]: "registry (set_active uid v n w) = registry w"
  by (simp add: registry_def set_active_def)

lemma registry_create_client [simp]: "registry (snd (create_client uid e w)) = registry w"
  by (simp add: create_client_def Let_def registry_def emit_def split: option.splits)

lemma registry_send_one [simp]: "registry (snd (send_one c txt de g w)) = registry w"
  by (simp add: send_one_def Let_def split: option.splits exn.splits)

lemma registry_send_to_groups [simp]: "registry (snd (send_to_groups c txt e gs w)) = registry w"
proof (induction gs arbitrary: w)
  case Nil
  show ?case by simp
next
  case (Cons g gs)
  have "registry (snd (send_one c txt (dest e g) g w)) = registry w" by simp
  then show ?case
    by (cases "send_one c txt (dest e g) g w") (auto split: option.splits simp: Cons.IH)
qed

lemma registry_sending [simp]: "registry (fst (snd (sending uid e pmg w l))) = registry w"
proof -
  obtain p m gs where pmg: "pmg = (p, m, gs)" by (cases pmg)
  have cc: "\<And>r w1. create_client uid e w = (r, w1) \<Longrightarrow> registry w1 = registry w"
    by (metis registry_create_client snd_conv)
  have sg: "\<And>c r w1 w2. send_to_groups c (text_body m) e gs w1 = (r, w2) \<Longrightarrow> registry w2 = registry w1"
    by (metis registry_send_to_groups snd_conv)
  show ?thesis
    unfolding sending_def pmg
    by (auto split: option.splits prod.splits sum.splits simp: Let_def dest!: cc sg)
qed

lemma registry_handle_cycle:
  "handle_cycle cfg uid e (x, w, l) = (st, w1, l1) \<Longrightarrow> registry w1 = registry w"
  by (auto simp: handle_cycle_def Let_def split: option.splits exn.splits if_splits)

lemma registry_sending_cycle:
  assumes "sending_cycle cfg uid e w l = (st, w1, l1)"
  shows "registry w1 = registry w"
proof (cases "checking_phase uid e w")
  case (Pair r w0)
  from checking_phase_world[OF Pair] have w0: "registry w0 = registry w" by auto
  show ?thesis
  proof (cases r)
    case (Inl s)
    with Pair assms w0 show ?thesis by (auto simp: sending_cycle_def)
  next
    case (Inr pmg)
    obtain x w2 l2 where s: "sending uid e pmg w0 l = (x, w2, l2)"
      by (cases "sending uid e pmg w0 l")
    then have "registry w2 = registry w0" by (metis registry_sending fst_conv snd_conv)
    moreover from assms Pair Inr s have "handle_cycle cfg uid e (x, w2, l2) = (st, w1, l1)"
      by (simp add: sending_cycle_def)
    ultimately show ?thesis using registry_handle_cycle[of cfg uid e x w2 l2 st w1 l1] w0
      by simp
  qed
qed

lemma registry_run_cycles:
  "run_cycles cfg uid es w l = Exited s w1 l1 \<Longrightarrow> registry w1 = registry w"
proof (induction es arbitrary: w l)
  case Nil
  then show ?case by simp
next
  case (Cons e es)
  obtain st w2 l2 where c: "sending_cycle cfg uid e w l = (st, w2, l2)"
    by (cases "sending_cycle cfg uid e w l")
  from registry_sending_cycle[OF c] have r: "registry w2 = registry w" .
  show ?case
  proof (cases st)
    case Next
    with c Cons.prems have "run_cycles cfg uid es w2 l2 = Exited s w1 l1" by simp
    then have "registry w1 = registry w2" by (rule Cons.IH)
    with r show ?thesis by simp
  next
    case (Exit s')
    with c Cons.prems r show ?thesis by simp
  qed
qed

lemma registry_sending_loop:
  assumes "sending_loop cfg uid es fe w = Some (r, w')"
  shows "tasks w' = tasks w \<and> next_task w' = next_task w
       \<and> active_tasks w' = (active_tasks w)(uid := None)"
proof (cases "run_cycles cfg uid es w \<lparr>retry_count = 0, client = None\<rparr>")
  case (Running w1 l1)
  with assms show ?thesis by (simp add: sending_loop_def)
next
  case (Exited s w1 l1)
  from registry_run_cycles[OF Exited] have "registry w1 = registry w" .
  moreover from assms Exited have "w' = snd (loop_exit uid fe s w1 l1)"
    by (auto simp: sending_loop_def)
  ultimately show ?thesis
    by (cases s)
       (auto simp: loop_exit_def loop_finally_def cleanup_entries_def registry_def emit_def
             set_active_def split: exn.splits option.splits)
qed

lemma registry_ok_run_task:
  assumes ok: "registry_ok w" and run: "run_task cfg t es fe w = Some w'"
  shows "registry_ok w'"
proof -
  from run obtain tk r w1 where tk: "tasks w t = Some tk" "task_state tk = Pending"
    and loop: "sending_loop cfg (task_user tk) es fe w = Some (r, w1)"
    and w': "w' = w1\<lparr>tasks := (tasks w1)(t \<mapsto> tk\<lparr>task_state := Done\<rparr>)\<rparr>"
    by (auto simp: run_task_def split: option.splits if_splits)
  from registry_sending_loop[OF loop] have f: "tasks w1 = tasks w" "next_task w1 = next_task w"
    "active_tasks w1 = (active_tasks w)(task_user tk := None)" by simp_all
  from ok tk have reg: "active_tasks w (task_user tk) = Some t" by (auto simp: registry_ok_def)
  show ?thesis
    unfolding registry_ok_def
  proof (intro conjI allI impI)
    show "heap_ok w'" using ok f w' tk by (auto simp: registry_ok_def heap_ok_def)
  next
    fix t' tk' assume a: "tasks w' t' = Some tk'" "task_state tk' \<noteq> Done"
    with w' f have ne: "t' \<noteq> t" and old: "tasks w t' = Some tk'" by (auto split: if_splits)
    with ok a(2) have r': "active_tasks w (task_user tk') = Some t'" by (auto simp: registry_ok_def)
    with reg ne have "task_user tk' \<noteq> task_user tk" by auto
    with r' f w' show "active_tasks w' (task_user tk') = Some t'" by simp
  qed
qed

text \<open>
  Operations that run one at a time keep every live task registered, so a user never
  has two.
\<close>

lemma registry_ok_boot: "registry_ok (boot d)"
  by (simp add: registry_ok_def heap_ok_def boot_def)

lemma registry_ok_set_active [simp]: "registry_ok (set_active uid v n w) = registry_ok w"
  by (simp add: registry_ok_def)

lemma registry_ok_restore_user: "registry_ok w \<Longrightarrow> registry_ok (restore_user n uid w)"
  by (auto simp: restore_user_def registry_ok_start split: option.splits list.splits)

lemma registry_ok_fold_restore:
  "registry_ok w \<Longrightarrow> registry_ok (fold (\<lambda>r. restore_user (now (user_id r)) (user_id r)) us w)"
  by (induction us arbitrary: w) (auto simp: registry_ok_restore_user)

lemma registry_ok_restore:
  assumes "registry_ok w"
  shows "registry_ok (restore_active_tasks now w)"
proof -
  let ?w1 = "fold (\<lambda>r. restore_user (now (user_id r)) (user_id r)) (get_active_users (db w)) w"
  from assms have ok: "registry_ok ?w1" by (rule registry_ok_fold_restore)
  then have "registry_ok (?w1\<lparr>subscription_checker_task := Some (next_task ?w1),
                              next_task := Suc (next_task ?w1)\<rparr>)"
    by (auto simp: registry_ok_def heap_ok_def)
  with ok show ?thesis
    by (simp add: restore_active_tasks_def Let_def split: option.splits)
qed

lemma sequential_registry_ok: "sequential w \<Longrightarrow> registry_ok w"
proof (induction rule: sequential.induct)
  case (at_boot d)
  show ?case by (rule registry_ok_boot)
next
  case (after_restore w now)
  then show ?case by (simp add: registry_ok_restore)
next
  case (after_start w now uid)
  then show ?case by (simp add: registry_ok_start)
next
  case (after_stop w now conn uid)
  then show ?case by (simp add: registry_ok_stop)
next
  case (after_task w cfg t es fe w')
  then show ?case by (blast intro: registry_ok_run_task)
qed

lemma sequential_one_live_task: "sequential w \<Longrightarrow> length (live_tasks uid w) \<le> 1"
  by (intro one_live_task sequential_registry_ok)

section \<open>Claims about the registry, the restore and the checker\<close>

text \<open>
  Claim C4, as the code has it. A second \<open>stop_sending\<close> right after a first finds no
  registry entry and no pooled client: it cancels nothing and disconnects nothing (the
  trace is unchanged) and only repeats the store update, which sets the flag to 0 again
  and writes the clock of the second call into \<open>updated_at\<close>; at the same clock reading
  the state is the state after the first call. The model of \<open>stop_sending\<close> is a total
  function: with the store call completing, no path of it raises. On a user with no
  registry entry and no pooled client, \<open>stop_sending\<close> is the store update and nothing
  else. (With a pooled client and no registry entry it also disconnects and drops that
  client: see the theorem after the witness.)
\<close>

theorem stop_twice:
  "stop_sending now2 conn2 uid (stop_sending now1 conn1 uid w)
     = set_active uid 0 now2 (stop_sending now1 conn1 uid w)
   \<and> trace (stop_sending now2 conn2 uid (stop_sending now1 conn1 uid w))
     = trace (stop_sending now1 conn1 uid w)
   \<and> (now2 = now1 \<longrightarrow>
        stop_sending now2 conn2 uid (stop_sending now1 conn1 uid w) = stop_sending now1 conn1 uid w)
   \<and> (active_tasks w uid = None \<and> clients w uid = None \<longrightarrow>
        stop_sending now1 conn1 uid w = set_active uid 0 now1 w)"
proof -
  let ?w = "stop_sending now1 conn1 uid w"
  have a: "stop_sending now2 conn2 uid ?w = set_active uid 0 now2 ?w"
    using stop_sending_entries[of now1 conn1 uid w] by (intro stop_sending_nothing_to_stop) simp_all
  have b: "trace (stop_sending now2 conn2 uid ?w) = trace ?w"
    unfolding a by simp
  have "db (set_active uid 0 now1 ?w) = db ?w"
    by (simp add: set_active_def db_stop_sending update_twice)
  then have c: "set_active uid 0 now1 ?w = ?w"
    by (simp add: set_active_def)
  show ?thesis using a b c by (auto simp: stop_sending_nothing_to_stop)
qed

theorem stop_twice_witness:
  "active_tasks (boot ready_db) 1 = None \<and> clients (boot ready_db) 1 = None
   \<and> stop_sending 60 True 1 (stop_sending 60 True 1 (start_sending 50 1 (boot ready_db)))
       = stop_sending 60 True 1 (start_sending 50 1 (boot ready_db))
   \<and> trace (stop_sending 70 True 1 (stop_sending 60 True 1 (start_sending 50 1 (boot ready_db))))
       = [Cancel 0]
   \<and> stop_sending 60 True 1 (boot ready_db) = set_active 1 0 60 (boot ready_db)"
proof -
  have h: "active_tasks (boot ready_db) 1 = None" "clients (boot ready_db) 1 = None"
    by (simp_all add: boot_def)
  note t = stop_twice [of 60 True 1 60 True "start_sending 50 1 (boot ready_db)"]
  note t2 = stop_twice [of 70 True 1 60 True "start_sending 50 1 (boot ready_db)"]
  note t3 = stop_twice [of 60 True 1 60 True "boot ready_db"]
  from t have a: "stop_sending 60 True 1 (stop_sending 60 True 1 (start_sending 50 1 (boot ready_db)))
       = stop_sending 60 True 1 (start_sending 50 1 (boot ready_db))" by blast
  have "trace (stop_sending 60 True 1 (start_sending 50 1 (boot ready_db))) = [Cancel 0]"
    by (simp add: fixture_defs store_defs registry_defs emit_def)
  with t2 have b: "trace (stop_sending 70 True 1 (stop_sending 60 True 1 (start_sending 50 1 (boot ready_db))))
       = [Cancel 0]" by simp
  from t3 h have c: "stop_sending 60 True 1 (boot ready_db) = set_active 1 0 60 (boot ready_db)"
    by blast
  show ?thesis by (intro conjI h a b c)
qed

text \<open>
  After \<open>create_client\<close> alone, user 1 has a pooled client and no registry entry;
  \<open>stop_sending\<close> then calls \<open>disconnect\<close> and drops the client. And a second call
  at a later clock reading changes \<open>updated_at\<close>.
\<close>

theorem stop_tears_down_pooled_client:
  "active_tasks pooled 1 = None \<and> clients pooled 1 = Some 0 \<and> trace pooled = [Connect 0]
   \<and> trace (stop_sending 60 True 1 pooled) = [Connect 0, Disconnect 0]
   \<and> clients (stop_sending 60 True 1 pooled) 1 = None
   \<and> map_option updated_at (get_user 1 (db (stop_sending 60 True 1 pooled))) = Some 60
   \<and> map_option updated_at (get_user 1 (db (stop_sending 70 True 1 (stop_sending 60 True 1 pooled))))
       = Some 70"
  by (simp add: pooled_def fixture_defs store_defs registry_defs create_client_def emit_def)

text \<open>
  Claim C6. One call of \<open>start_sending\<close> running alone does what the claim says
  (\<open>start_sending_noop\<close>, \<open>start_sending_spawns\<close>), and operations that run one at
  a time keep every live task registered, so each user has at most one
  (\<open>sequential_one_live_task\<close>). Two calls that overlap do not: the guard of the
  second is evaluated while the first is suspended at its store call, before it has
  recorded a handle; both calls create a task, the second handle overwrites the first
  in the registry, and the user has two live tasks. The claim "at most one live send
  task per user id at any instant" does not hold of the code.
\<close>

theorem overlapping_starts_two_live_tasks:
  assumes "active_tasks w uid = None"
  shows "live_tasks uid (overlapping_starts now1 now2 uid w)
           = live_tasks uid w @ [next_task w, Suc (next_task w)]
       \<and> active_tasks (overlapping_starts now1 now2 uid w) uid = Some (Suc (next_task w))"
  using assms
  by (simp add: overlapping_starts_def start_sending_enter_def live_tasks_resume
      active_tasks_resume) (simp add: start_sending_resume_def Let_def)

theorem overlapping_starts_two_live_tasks_witness:
  "active_tasks (boot ready_db) 1 = None
   \<and> live_tasks 1 (overlapping_starts 50 50 1 (boot ready_db)) = [0, 1]
   \<and> active_tasks (overlapping_starts 50 50 1 (boot ready_db)) 1 = Some 1
   \<and> live_tasks 1 (start_sending 50 1 (start_sending 50 1 (boot ready_db))) = [0]"
proof -
  have h: "active_tasks (boot ready_db) 1 = None" by (simp add: boot_def)
  have n: "next_task (boot ready_db) = 0" "live_tasks 1 (boot ready_db) = []"
    by (simp_all add: boot_def live_tasks_def)
  from overlapping_starts_two_live_tasks [OF h, of 50 50] n
  have a: "live_tasks 1 (overlapping_starts 50 50 1 (boot ready_db)) = [0, 1]"
    "active_tasks (overlapping_starts 50 50 1 (boot ready_db)) 1 = Some 1"
    by simp_all
  have b: "live_tasks 1 (start_sending 50 1 (start_sending 50 1 (boot ready_db))) = [0]"
    by (simp add: fixture_defs store_defs registry_defs)
  show ?thesis by (intro conjI h a b)
qed

text \<open>
  Claim C8, as the code has it. Take a user whose row at boot has the active flag 1 and
  is not banned (\<open>get_active_users\<close> selects \<open>is_active = 1 AND is_banned = 0\<close>), and
  whose subscription is valid when the user is handled. When profile, message or groups
  are missing, the restore leaves the active flag 0, no registry entry and no task for
  the user. When all three are there, what the restore does for the user is
  \<open>start_sending\<close>: the flag is 1 and exactly one task of the user is live, the
  registered one.
\<close>

theorem restore_on_boot:
  assumes "primary_key d" and "r \<in> set (users d)"
    and "is_active r = 1" and "is_banned r = 0"
    and "now (user_id r) < subscription_until r"
  shows "(get_profile (user_id r) d = None \<or> get_message (user_id r) d = None
          \<or> get_user_groups (user_id r) d = [] \<longrightarrow>
            map_option is_active (get_user (user_id r) (db (restore_active_tasks now (boot d)))) = Some 0
            \<and> active_tasks (restore_active_tasks now (boot d)) (user_id r) = None
            \<and> live_tasks (user_id r) (restore_active_tasks now (boot d)) = [])
       \<and> (get_profile (user_id r) d \<noteq> None \<and> get_message (user_id r) d \<noteq> None
          \<and> get_user_groups (user_id r) d \<noteq> [] \<longrightarrow>
            restore_user (now (user_id r)) (user_id r) (w0\<lparr>db := d\<rparr>)
              = start_sending (now (user_id r)) (user_id r) (w0\<lparr>db := d\<rparr>)
            \<and> map_option is_active (get_user (user_id r) (db (restore_active_tasks now (boot d)))) = Some 1
            \<and> (\<exists>t. active_tasks (restore_active_tasks now (boot d)) (user_id r) = Some t
                   \<and> live_tasks (user_id r) (restore_active_tasks now (boot d)) = [t]))"
proof -
  let ?u = "user_id r"
  let ?w' = "restore_active_tasks now (boot d)"
  from restore_at_user[OF assms(1-4), of now] obtain wA where
    A: "get_user ?u (db wA) = Some r" "profiles (db wA) = profiles d"
       "messages (db wA) = messages d" "user_groups (db wA) = user_groups d"
       "active_tasks wA ?u = None" "live_tasks ?u wA = []"
    and B: "get_user ?u (db ?w') = get_user ?u (db (restore_user (now ?u) ?u wA))"
       "active_tasks ?w' ?u = active_tasks (restore_user (now ?u) ?u wA) ?u"
       "live_tasks ?u ?w' = live_tasks ?u (restore_user (now ?u) ?u wA)"
    by (auto simp: Let_def)
  from A(2-4) have T: "get_profile ?u (db wA) = get_profile ?u d"
    "get_message ?u (db wA) = get_message ?u d"
    "get_user_groups ?u (db wA) = get_user_groups ?u d"
    by (simp_all add: get_profile_def get_message_def get_user_groups_def)
  from A(1) assms(5) have sub: "check_subscription ?u (now ?u) (db wA)"
    by (simp add: check_subscription_def)
  from assms(1,2) have "get_user ?u d = Some r" by (rule get_user_mem)
  with assms(5) have sub0: "check_subscription ?u (now ?u) d"
    by (simp add: check_subscription_def)
  show ?thesis
  proof (intro conjI impI)
    assume miss: "get_profile ?u d = None \<or> get_message ?u d = None \<or> get_user_groups ?u d = []"
    with sub T have "restore_user (now ?u) ?u wA = set_active ?u 0 (now ?u) wA"
      by (auto simp: restore_user_def split: option.splits list.splits)
    with A B show "map_option is_active (get_user ?u (db ?w')) = Some 0"
      "active_tasks ?w' ?u = None" "live_tasks ?u ?w' = []"
      by (simp_all add: get_user_set_active)
  next
    assume all: "get_profile ?u d \<noteq> None \<and> get_message ?u d \<noteq> None \<and> get_user_groups ?u d \<noteq> []"
    with sub0 show "restore_user (now ?u) ?u (w0\<lparr>db := d\<rparr>) = start_sending (now ?u) ?u (w0\<lparr>db := d\<rparr>)"
      by (auto simp: restore_user_def split: option.splits list.splits)
    from all sub T have R: "restore_user (now ?u) ?u wA = start_sending (now ?u) ?u wA"
      by (auto simp: restore_user_def split: option.splits list.splits)
    from A(5) have S: "start_sending (now ?u) ?u wA
        = start_sending_resume ?u (set_active ?u 1 (now ?u) wA)"
      by (simp add: start_sending_def start_sending_enter_def)
    from A B show "map_option is_active (get_user ?u (db ?w')) = Some 1"
      by (simp add: R S get_user_set_active)
    from A B show "\<exists>t. active_tasks ?w' ?u = Some t \<and> live_tasks ?u ?w' = [t]"
      by (simp add: R S live_tasks_resume active_tasks_resume)
  qed
qed

theorem restore_on_boot_witness:
  "primary_key (ready_db\<lparr>user_groups := []\<rparr>) \<and> user1 \<in> set (users (ready_db\<lparr>user_groups := []\<rparr>))
   \<and> is_active user1 = 1 \<and> is_banned user1 = 0 \<and> 100 < subscription_until user1
   \<and> get_user_groups (user_id user1) (ready_db\<lparr>user_groups := []\<rparr>) = []
   \<and> map_option is_active (get_user 1 (db (restore_active_tasks (\<lambda>uid. 100)
        (boot (ready_db\<lparr>user_groups := []\<rparr>))))) = Some 0
   \<and> active_tasks (restore_active_tasks (\<lambda>uid. 100) (boot (ready_db\<lparr>user_groups := []\<rparr>))) 1 = None
   \<and> live_tasks 1 (restore_active_tasks (\<lambda>uid. 100) (boot (ready_db\<lparr>user_groups := []\<rparr>))) = []
   \<and> primary_key ready_db \<and> user1 \<in> set (users ready_db)
   \<and> get_profile 1 ready_db \<noteq> None \<and> get_message 1 ready_db \<noteq> None
   \<and> get_user_groups 1 ready_db \<noteq> []
   \<and> map_option is_active (get_user 1 (db (restore_active_tasks (\<lambda>uid. 100) (boot ready_db)))) = Some 1
   \<and> (\<exists>t. active_tasks (restore_active_tasks (\<lambda>uid. 100) (boot ready_db)) 1 = Some t
          \<and> live_tasks 1 (restore_active_tasks (\<lambda>uid. 100) (boot ready_db)) = [t])"
proof -
  let ?d = "ready_db\<lparr>user_groups := []\<rparr>"
  have h: "primary_key ?d" "user1 \<in> set (users ?d)" "is_active user1 = 1" "is_banned user1 = 0"
    "(\<lambda>uid. 100) (user_id user1) < subscription_until user1"
    by (simp_all add: primary_key_def fixture_defs)
  have k: "primary_key ready_db" "user1 \<in> set (users ready_db)" "is_active user1 = 1" "is_banned user1 = 0"
    "(\<lambda>uid. 100) (user_id user1) < subscription_until user1"
    by (simp_all add: primary_key_def fixture_defs)
  have u: "user_id user1 = 1" by (simp add: user1_def)
  have m: "get_user_groups (user_id user1) ?d = []" by (simp add: fixture_defs store_defs)
  have p: "get_profile 1 ready_db \<noteq> None" "get_message 1 ready_db \<noteq> None"
    "get_user_groups 1 ready_db \<noteq> []" by (simp_all add: fixture_defs store_defs)
  note a = restore_on_boot [OF h, of "boot ?d"]
  note b = restore_on_boot [OF k, of "boot ready_db"]
  from a m have a': "map_option is_active (get_user 1 (db (restore_active_tasks (\<lambda>uid. 100) (boot ?d)))) = Some 0"
    "active_tasks (restore_active_tasks (\<lambda>uid. 100) (boot ?d)) 1 = None"
    "live_tasks 1 (restore_active_tasks (\<lambda>uid. 100) (boot ?d)) = []"
    unfolding u by blast+
  from b p have b': "map_option is_active (get_user 1 (db (restore_active_tasks (\<lambda>uid. 100) (boot ready_db)))) = Some 1"
    "\<exists>t. active_tasks (restore_active_tasks (\<lambda>uid. 100) (boot ready_db)) 1 = Some t
          \<and> live_tasks 1 (restore_active_tasks (\<lambda>uid. 100) (boot ready_db)) = [t]"
    unfolding u by blast+
  have s: "100 < subscription_until user1" by (simp add: user1_def)
  show ?thesis by (intro conjI h(1-4) s m a' k(1,2) p b')
qed

text \<open>
  A user whose row is active and banned is not among the users the restore handles:
  with a valid subscription and no groups, the active flag is still 1 afterwards.
\<close>

theorem restore_skips_banned_active_user:
  "map_option is_active (get_user 1 banned_db) = Some 1
   \<and> check_subscription 1 100 banned_db
   \<and> get_user_groups 1 banned_db = []
   \<and> map_option is_active (get_user 1 (db (restore_active_tasks (\<lambda>uid. 100) (boot banned_db)))) = Some 1"
  by (simp add: banned_db_def fixture_defs store_defs restore_active_tasks_def get_active_users_def)

text \<open>
  Claim C10. On every store and at every clock reading, the expired-subscription query
  returns exactly the ids of the users with \<open>0 < subscription_until < now\<close> and
  \<open>is_active = 1\<close>. In particular, under the primary key, a user whose
  \<open>subscription_until\<close> is 0 is not among them, so a round of the checker calls
  \<open>stop_sending\<close> for other users only and leaves that user's row as it was.
\<close>

theorem expired_query_skips_never_subscribed:
  "set (get_expired_subscriptions now (db w)) =
     user_id ` {r \<in> set (users (db w)).
                 0 < subscription_until r \<and> subscription_until r < now \<and> is_active r = 1}
   \<and> (primary_key (db w) \<and> r \<in> set (users (db w)) \<and> subscription_until r = 0 \<longrightarrow>
        user_id r \<notin> set (get_expired_subscriptions now (db w))
        \<and> get_user (user_id r) (db (checker_round now sn conn w)) = Some r)"
proof (intro conjI impI)
  show "set (get_expired_subscriptions now (db w)) =
     user_id ` {r \<in> set (users (db w)).
                 0 < subscription_until r \<and> subscription_until r < now \<and> is_active r = 1}"
    by (auto simp: get_expired_subscriptions_def)
next
  assume h: "primary_key (db w) \<and> r \<in> set (users (db w)) \<and> subscription_until r = 0"
  let ?ex = "get_expired_subscriptions now (db w)"
  show b: "user_id r \<notin> set ?ex"
  proof
    assume "user_id r \<in> set ?ex"
    then obtain r' where r': "r' \<in> set (users (db w))" "user_id r' = user_id r"
      "0 < subscription_until r'"
      by (auto simp: get_expired_subscriptions_def)
    from h r'(1) have "get_user (user_id r') (db w) = Some r'" by (simp add: get_user_mem)
    moreover from h have "get_user (user_id r) (db w) = Some r" by (simp add: get_user_mem)
    ultimately have "r' = r" using r'(2) by (metis option.inject)
    with r'(3) h show False by simp
  qed
  show "get_user (user_id r) (db (checker_round now sn conn w)) = Some r"
    unfolding checker_round_def using b h
    by (simp add: get_user_fold_stop get_user_mem)
qed

theorem expired_query_skips_never_subscribed_witness:
  "get_expired_subscriptions 100 (db (boot mixed_db)) = [2]
   \<and> get_expired_subscriptions 100 (db (boot ready_db)) = []
   \<and> set (get_expired_subscriptions 2000 (db (boot ready_db)))
       = user_id ` {r \<in> set (users (db (boot ready_db))).
                     0 < subscription_until r \<and> subscription_until r < 2000 \<and> is_active r = 1}
   \<and> get_expired_subscriptions 2000 (db (boot ready_db)) = [1]
   \<and> primary_key (db (boot mixed_db)) \<and> never_subscribed \<in> set (users (db (boot mixed_db)))
   \<and> subscription_until never_subscribed = 0 \<and> is_active never_subscribed = 1
   \<and> user_id never_subscribed \<notin> set (get_expired_subscriptions 100 (db (boot mixed_db)))
   \<and> get_user (user_id never_subscribed)
        (db (checker_round 100 (\<lambda>uid. 100) (\<lambda>uid. True) (boot mixed_db))) = Some never_subscribed"
proof -
  have h: "primary_key (db (boot mixed_db))"
    "never_subscribed \<in> set (users (db (boot mixed_db)))"
    "subscription_until never_subscribed = 0"
    by (simp_all add: primary_key_def mixed_db_def never_subscribed_def lapsed_def fixture_defs)
  have e: "get_expired_subscriptions 100 (db (boot mixed_db)) = [2]"
    "get_expired_subscriptions 100 (db (boot ready_db)) = []"
    by (simp_all add: get_expired_subscriptions_def mixed_db_def never_subscribed_def lapsed_def
                      fixture_defs)
  have a: "is_active never_subscribed = 1"
    by (simp add: never_subscribed_def user1_def)
  have f: "get_expired_subscriptions 2000 (db (boot ready_db)) = [1]"
    by (simp add: get_expired_subscriptions_def fixture_defs)
  note t = expired_query_skips_never_subscribed
             [of 100 "boot mixed_db" never_subscribed "\<lambda>uid. 100" "\<lambda>uid. True"]
  note t' = expired_query_skips_never_subscribed
             [of 2000 "boot ready_db" user1 "\<lambda>uid. 100" "\<lambda>uid. True"]
  from t' have x: "set (get_expired_subscriptions 2000 (db (boot ready_db)))
       = user_id ` {r \<in> set (users (db (boot ready_db))).
                     0 < subscription_until r \<and> subscription_until r < 2000 \<and> is_active r = 1}"
    by (rule conjunct1)
  from t h have n: "user_id never_subscribed
                      \<notin> set (get_expired_subscriptions 100 (db (boot mixed_db)))"
    by blast
  from t h have g: "get_user (user_id never_subscribed)
        (db (checker_round 100 (\<lambda>uid. 100) (\<lambda>uid. True) (boot mixed_db))) = Some never_subscribed"
    by blast
  show ?thesis by (intro conjI e x f h a n g)
qed

end
